theory Spec2Isabelle
  imports Main "HOL-Library.Word" "HOL-Library.Monad_Syntax"
begin

unbundle bit_operations_syntax

section \<open>Bytes, memory and little-endian reads\<close>

text \<open>
  The hive file is loaded into one heap buffer and \<open>root\<close> points 0x1000 bytes into it.
  Every access of \<open>regdump.c\<close> is \<open>root + offset\<close>, so memory is modelled as a partial
  function from root-relative addresses to bytes: the file header lives at the addresses
  \<open>-0x1000 .. -1\<close>, the cells at \<open>0 ..\<close>. An address outside the buffer has no byte; a read
  there has no defined result in C and is \<open>None\<close> in the model, and \<open>None\<close> propagates.
  The program assumes a little-endian CPU (header comment of the source).
\<close>

type_synonym byte = "8 word"
type_synonym mem = "int \<Rightarrow> byte option"

definition load_file :: "byte list \<Rightarrow> mem" where
  "load_file f = (\<lambda>a. if - 4096 \<le> a \<and> a + 4096 < int (length f)
                       then Some (f ! nat (a + 4096)) else None)"

definition le_nat :: "byte list \<Rightarrow> nat" where
  "le_nat bs = foldr (\<lambda>b acc. unat b + 256 * acc) bs 0"

definition rd_bytes :: "mem \<Rightarrow> int \<Rightarrow> nat \<Rightarrow> byte list option" where
  "rd_bytes m a n = those (map (\<lambda>i. m (a + int i)) [0..<n])"

definition rd16 :: "mem \<Rightarrow> int \<Rightarrow> 16 word option" where
  "rd16 m a = (case m a of None \<Rightarrow> None | Some b0 \<Rightarrow>
               (case m (a + 1) of None \<Rightarrow> None | Some b1 \<Rightarrow>
                  Some (of_nat (le_nat [b0, b1]))))"

definition rd32 :: "mem \<Rightarrow> int \<Rightarrow> 32 word option" where
  "rd32 m a = (case rd_bytes m a 4 of None \<Rightarrow> None | Some bs \<Rightarrow> Some (of_nat (le_nat bs)))"

definition rd64 :: "mem \<Rightarrow> int \<Rightarrow> 64 word option" where
  "rd64 m a = (case rd_bytes m a 8 of None \<Rightarrow> None | Some bs \<Rightarrow> Some (of_nat (le_nat bs)))"

text \<open>C integer division and remainder truncate towards zero.\<close>

definition tdiv :: "int \<Rightarrow> int \<Rightarrow> int" where
  "tdiv a b = sgn a * sgn b * (\<bar>a\<bar> div \<bar>b\<bar>)"

definition tmod :: "int \<Rightarrow> int \<Rightarrow> int" where
  "tmod a b = a - b * tdiv a b"

section \<open>printf conversions\<close>

definition hexdigit :: "nat \<Rightarrow> char" where
  "hexdigit d = ''0123456789ABCDEF'' ! d"

fun hex_nat :: "nat \<Rightarrow> string" where
  "hex_nat n = (if n < 16 then [hexdigit n] else hex_nat (n div 16) @ [hexdigit (n mod 16)])"

fun dec_nat :: "nat \<Rightarrow> string" where
  "dec_nat n = (if n < 10 then [hexdigit n] else dec_nat (n div 10) @ [hexdigit (n mod 10)])"

declare hex_nat.simps [simp del]
declare dec_nat.simps [simp del]

definition pad0 :: "nat \<Rightarrow> string \<Rightarrow> string" where
  "pad0 w s = replicate (w - length s) CHR ''0'' @ s"

text \<open>\<open>%0wX\<close> of an unsigned value, \<open>%d\<close> and \<open>%0wd\<close> of a signed one.\<close>

definition fmt_0X :: "nat \<Rightarrow> nat \<Rightarrow> string" where
  "fmt_0X w n = pad0 w (hex_nat n)"

definition fmt_d :: "int \<Rightarrow> string" where
  "fmt_d i = (if i < 0 then CHR ''-'' # dec_nat (nat (- i)) else dec_nat (nat i))"

definition fmt_0d :: "nat \<Rightarrow> int \<Rightarrow> string" where
  "fmt_0d w i = (if i < 0 then CHR ''-'' # pad0 (w - 1) (dec_nat (nat (- i)))
                 else pad0 w (dec_nat (nat i)))"

definition char_of_byte :: "byte \<Rightarrow> char" where
  "char_of_byte b = char_of (unat b)"

definition byte_of_char :: "char \<Rightarrow> byte" where
  "byte_of_char c = of_char c"

definition printable8 :: "byte \<Rightarrow> bool" where
  "printable8 b = (32 \<le> unat b \<and> unat b < 127)"

definition printable16 :: "16 word \<Rightarrow> bool" where
  "printable16 u = (32 \<le> unat u \<and> unat u < 127)"

text \<open>\<open>"<%02X>"\<close> of a byte and \<open>"<%0*X>", (us < 0x100) ? 2 : 4, us\<close> of a code unit.\<close>

definition esc8 :: "byte \<Rightarrow> string" where
  "esc8 b = ''<'' @ fmt_0X 2 (unat b) @ ''>''"

definition esc16 :: "16 word \<Rightarrow> string" where
  "esc16 u = ''<'' @ fmt_0X (if unat u < 0x100 then 2 else 4) (unat u) @ ''>''"

section \<open>The path buffer\<close>

text \<open>
  \<open>main\<close> owns \<open>char path[0x4000]\<close>; \<open>full\<close> points to its start and \<open>walk\<close> writes into it
  through the \<open>path\<close> pointer, here an index. A write at or past index 0x4000 leaves the
  array and has no defined result.
\<close>

type_synonym pathbuf = "nat \<Rightarrow> byte"

definition path_size :: nat where
  "path_size = 0x4000"

definition pb_put :: "pathbuf \<Rightarrow> nat \<Rightarrow> byte \<Rightarrow> pathbuf option" where
  "pb_put buf i c = (if i < path_size then Some (buf(i := c)) else None)"

primrec pb_puts :: "pathbuf \<Rightarrow> nat \<Rightarrow> byte list \<Rightarrow> pathbuf option" where
  "pb_puts buf i [] = Some buf"
| "pb_puts buf i (c # cs) =
     (case pb_put buf i c of None \<Rightarrow> None | Some buf' \<Rightarrow> pb_puts buf' (Suc i) cs)"

text \<open>\<open>sprintf\<close> stores the formatted text and a terminating NUL.\<close>

definition sprintf_at :: "pathbuf \<Rightarrow> nat \<Rightarrow> string \<Rightarrow> pathbuf option" where
  "sprintf_at buf out s = pb_puts buf out (map byte_of_char s @ [0])"

text \<open>\<open>printf("%s", full)\<close>: the bytes from index \<open>i\<close> up to the first NUL.\<close>

function cstr_from :: "pathbuf \<Rightarrow> nat \<Rightarrow> string option" where
  "cstr_from buf i =
     (if i < path_size then
        (if buf i = 0 then Some []
         else (case cstr_from buf (Suc i) of None \<Rightarrow> None
               | Some s \<Rightarrow> Some (char_of_byte (buf i) # s)))
      else None)"
  by pat_completeness auto
termination
  by (relation "measure (\<lambda>(buf, i). path_size - i)") auto

declare cstr_from.simps [simp del]

section \<open>Name Decoder: \<open>make_name\<close>\<close>

text \<open>
  The two loops of \<open>make_name\<close>. \<open>out\<close> is the write position, \<open>uc\<close>/\<open>us\<close> the read
  address, \<open>i\<close> the loop counter. The result is the buffer and the final \<open>out\<close>.
\<close>

function make_name_comp ::
  "mem \<Rightarrow> pathbuf \<Rightarrow> nat \<Rightarrow> int \<Rightarrow> int \<Rightarrow> int \<Rightarrow> (pathbuf \<times> nat) option" where
  "make_name_comp m buf out uc i len =
     (if i < len then
        (case m uc of None \<Rightarrow> None
         | Some c \<Rightarrow>
            if printable8 c then
              (case pb_put buf out c of None \<Rightarrow> None
               | Some buf' \<Rightarrow> make_name_comp m buf' (Suc out) (uc + 1) (i + 1) len)
            else
              (case sprintf_at buf out (esc8 c) of None \<Rightarrow> None
               | Some buf' \<Rightarrow>
                   make_name_comp m buf' (out + length (esc8 c)) (uc + 1) (i + 1) len))
      else Some (buf, out))"
  by pat_completeness auto
termination
  by (relation "measure (\<lambda>(m, buf, out, uc, i, len). nat (len - i))") auto

function make_name_wide ::
  "mem \<Rightarrow> pathbuf \<Rightarrow> nat \<Rightarrow> int \<Rightarrow> int \<Rightarrow> int \<Rightarrow> (pathbuf \<times> nat) option" where
  "make_name_wide m buf out us i len =
     (if i < tdiv len 2 then
        (case rd16 m us of None \<Rightarrow> None
         | Some u \<Rightarrow>
            if printable16 u then
              (case pb_put buf out (ucast u) of None \<Rightarrow> None
               | Some buf' \<Rightarrow> make_name_wide m buf' (Suc out) (us + 2) (i + 1) len)
            else
              (case sprintf_at buf out (esc16 u) of None \<Rightarrow> None
               | Some buf' \<Rightarrow>
                   make_name_wide m buf' (out + length (esc16 u)) (us + 2) (i + 1) len))
      else Some (buf, out))"
  by pat_completeness auto
termination
  by (relation "measure (\<lambda>(m, buf, out, us, i, len). nat (tdiv len 2 - i))") auto

declare make_name_comp.simps [simp del]
declare make_name_wide.simps [simp del]

definition make_name ::
  "mem \<Rightarrow> pathbuf \<Rightarrow> nat \<Rightarrow> int \<Rightarrow> int \<Rightarrow> bool \<Rightarrow> (pathbuf \<times> nat) option" where
  "make_name m buf out inp len compressed =
     (case (if compressed then make_name_comp m buf out inp 0 len
            else make_name_wide m buf out inp 0 len) of
        None \<Rightarrow> None
      | Some (buf', out') \<Rightarrow>
          (case pb_put buf' out' 0 of None \<Rightarrow> None | Some buf'' \<Rightarrow> Some (buf'', out')))"

section \<open>Value Type Resolver\<close>

definition REG_NONE :: "32 word" where "REG_NONE = 0"
definition REG_SZ :: "32 word" where "REG_SZ = 1"
definition REG_EXPAND_SZ :: "32 word" where "REG_EXPAND_SZ = 2"
definition REG_BINARY :: "32 word" where "REG_BINARY = 3"
definition REG_DWORD :: "32 word" where "REG_DWORD = 4"
definition REG_LINK :: "32 word" where "REG_LINK = 6"
definition REG_MULTI_SZ :: "32 word" where "REG_MULTI_SZ = 7"
definition REG_QWORD :: "32 word" where "REG_QWORD = 11"

definition DEVPROP_TYPE_INT16 :: "32 word" where "DEVPROP_TYPE_INT16 = 4"
definition DEVPROP_TYPE_UINT16 :: "32 word" where "DEVPROP_TYPE_UINT16 = 5"
definition DEVPROP_TYPE_INT32 :: "32 word" where "DEVPROP_TYPE_INT32 = 6"
definition DEVPROP_TYPE_UINT32 :: "32 word" where "DEVPROP_TYPE_UINT32 = 7"
definition DEVPROP_TYPE_INT64 :: "32 word" where "DEVPROP_TYPE_INT64 = 8"
definition DEVPROP_TYPE_UINT64 :: "32 word" where "DEVPROP_TYPE_UINT64 = 9"
definition DEVPROP_TYPE_FILETIME :: "32 word" where "DEVPROP_TYPE_FILETIME = 0x10"
definition DEVPROP_TYPE_BOOLEAN :: "32 word" where "DEVPROP_TYPE_BOOLEAN = 0x11"
definition DEVPROP_TYPE_STRING :: "32 word" where "DEVPROP_TYPE_STRING = 0x12"
definition DEVPROP_TYPE_STRING_LIST :: "32 word" where
  "DEVPROP_TYPE_STRING_LIST = 0x2000 OR DEVPROP_TYPE_STRING"
definition DEVPROP_TYPE_STRING_INDIRECT :: "32 word" where
  "DEVPROP_TYPE_STRING_INDIRECT = 0x19"

lemmas reg_types =
  REG_NONE_def REG_SZ_def REG_EXPAND_SZ_def REG_BINARY_def REG_DWORD_def REG_LINK_def
  REG_MULTI_SZ_def REG_QWORD_def

lemmas devprop_types =
  DEVPROP_TYPE_INT16_def DEVPROP_TYPE_UINT16_def DEVPROP_TYPE_INT32_def
  DEVPROP_TYPE_UINT32_def DEVPROP_TYPE_INT64_def DEVPROP_TYPE_UINT64_def
  DEVPROP_TYPE_FILETIME_def DEVPROP_TYPE_BOOLEAN_def DEVPROP_TYPE_STRING_def
  DEVPROP_TYPE_STRING_LIST_def DEVPROP_TYPE_STRING_INDIRECT_def

text \<open>
  The \<open>switch\<close> on \<open>type & 0xFFFF\<close> inside \<open>walk\<close>; a code without a \<open>case\<close> leaves
  \<open>type\<close> as it was.
\<close>

definition devprop_switch :: "32 word \<Rightarrow> 32 word" where
  "devprop_switch t =
     (let c = t AND 0xFFFF in
      if c = DEVPROP_TYPE_INT32 \<or> c = DEVPROP_TYPE_UINT32 then REG_DWORD
      else if c = DEVPROP_TYPE_INT64 \<or> c = DEVPROP_TYPE_UINT64 \<or> c = DEVPROP_TYPE_FILETIME
        then REG_QWORD
      else if c = DEVPROP_TYPE_STRING \<or> c = DEVPROP_TYPE_STRING_INDIRECT then REG_SZ
      else if c = DEVPROP_TYPE_STRING_LIST then REG_MULTI_SZ
      else t)"

definition resolve_type :: "bool \<Rightarrow> bool \<Rightarrow> 32 word \<Rightarrow> 32 word" where
  "resolve_type properties driverpackages t =
     (if properties \<and> t AND 0xFFFF0000 = 0xFFFF0000 then devprop_switch t
      else if driverpackages then t AND 0xFFFF
      else t)"

section \<open>Timestamp Formatter: \<open>print_time\<close>\<close>

text \<open>
  The POSIX branch of \<open>print_time\<close>. The C library's \<open>localtime\<close> depends on the time zone
  of the process and is a parameter; it may return a null pointer, here \<open>None\<close>.
  \<open>time_t\<close> is taken as 64 bits wide.
\<close>

record tm =
  tm_year :: int
  tm_mon :: int
  tm_mday :: int
  tm_hour :: int
  tm_min :: int
  tm_sec :: int

definition print_time :: "(int \<Rightarrow> tm option) \<Rightarrow> 64 word \<Rightarrow> bool \<Rightarrow> bool \<Rightarrow> string option" where
  "print_time lt_fun t full brackets =
     (case lt_fun (tdiv (sint t) 10000000 - 11644473600) of None \<Rightarrow> None
      | Some lt \<Rightarrow> Some (
          (if brackets then ''['' else []) @
          fmt_d (tm_year lt + 1900) @ ''-'' @ fmt_0d 2 (tm_mon lt + 1) @ ''-'' @
          fmt_0d 2 (tm_mday lt) @ '' '' @ fmt_0d 2 (tm_hour lt) @ '':'' @
          fmt_0d 2 (tm_min lt) @ '':'' @ fmt_0d 2 (tm_sec lt) @
          (if full then ''.'' @ fmt_0d 7 (tmod (sint t) 10000000) else []) @
          (if brackets then ''] '' else [])))"

section \<open>Value Data Materializer\<close>

text \<open>
  \<open>data\<close> points either into the hive or to the block obtained from \<open>malloc\<close>. A byte of
  the block that no \<open>memcpy\<close> has stored is \<open>None\<close>: reading it has no defined value.
  \<open>malloc\<close> is taken to succeed.
\<close>

datatype dptr = InHive int | InBlock "byte option list"

definition view :: "mem \<Rightarrow> dptr \<Rightarrow> mem" where
  "view m p = (case p of
       InHive a \<Rightarrow> (\<lambda>i. m (a + i))
     | InBlock blk \<Rightarrow> (\<lambda>i. if 0 \<le> i \<and> i < int (length blk) then blk ! nat i else None))"

text \<open>
  \<open>memcpy(data, src, n)\<close> into the block at offset \<open>dpos\<close>. A negative \<open>n\<close> converts to a
  huge \<open>size_t\<close>, and a copy that leaves the block or the hive has no defined result.
\<close>

definition memcpy_blk ::
  "mem \<Rightarrow> byte option list \<Rightarrow> int \<Rightarrow> int \<Rightarrow> int \<Rightarrow> byte option list option" where
  "memcpy_blk m blk dpos src n =
     (if n < 0 then None
      else (case rd_bytes m src (nat n) of None \<Rightarrow> None
            | Some bs \<Rightarrow>
                if n = 0 then Some blk
                else if dpos + n \<le> int (length blk)
                  then Some (take (nat dpos) blk @ map Some bs @ drop (nat (dpos + n)) blk)
                else None))"

text \<open>The length argument of the \<open>memcpy\<close>: \<open>(left > 16344) ? 16344 : left\<close>.\<close>

definition copy_len :: "int \<Rightarrow> int" where
  "copy_len left = (if left > 16344 then 16344 else left)"

text \<open>
  The loop \<open>for (i = 0; i < item->count; ++i)\<close> over the segments of a \<open>db\<close> cell.
  \<open>item\<close> is the address of the cell, \<open>dl\<close> of the segment list, \<open>dpos\<close> the offset of
  \<open>data\<close> in the block.
\<close>

function big_loop ::
  "mem \<Rightarrow> int \<Rightarrow> int \<Rightarrow> int \<Rightarrow> int \<Rightarrow> int \<Rightarrow> byte option list \<Rightarrow> byte option list option" where
  "big_loop m item dl i dpos left blk =
     (case rd16 m (item + 6) of None \<Rightarrow> None
      | Some cnt \<Rightarrow>
          if i < sint cnt then
            (case rd32 m (dl + 4 + 4 * i) of None \<Rightarrow> None
             | Some so \<Rightarrow>
                (case memcpy_blk m blk dpos (sint so + 4) (copy_len left) of None \<Rightarrow> None
                 | Some blk' \<Rightarrow> big_loop m item dl (i + 1) (dpos + 16344) (left - 16344) blk'))
          else Some blk)"
  by pat_completeness auto
termination
  by (relation "measure (\<lambda>(m, item, dl, i, dpos, left, blk).
        case rd16 m (item + 6) of None \<Rightarrow> 0 | Some cnt \<Rightarrow> nat (sint cnt - i))") auto

declare big_loop.simps [simp del]

definition reassemble :: "mem \<Rightarrow> int \<Rightarrow> int \<Rightarrow> byte option list option" where
  "reassemble m item sz =
     (case rd32 m (item + 8) of None \<Rightarrow> None
      | Some dl \<Rightarrow> big_loop m item (sint dl) 0 0 sz (replicate (nat sz) None))"

text \<open>The test \<open>size > 16344 && big_data && *data == 'd' && data[1] == 'b'\<close>.\<close>

definition is_big :: "bool \<Rightarrow> mem \<Rightarrow> int \<Rightarrow> int \<Rightarrow> bool option" where
  "is_big bd m data sz =
     (if sz > 16344 \<and> bd then
        (case m data of None \<Rightarrow> None
         | Some c0 \<Rightarrow>
             if c0 = 0x64 then
               (case m (data + 1) of None \<Rightarrow> None | Some c1 \<Rightarrow> Some (c1 = 0x62))
             else Some False)
      else Some False)"

text \<open>
  \<open>val\<close> is the address of the value cell: \<open>size\<close> is at offset 8, \<open>offset\<close> at 12,
  \<open>value_type\<close> at 16 of \<open>value_block\<close>.
\<close>

definition logical_size :: "32 word \<Rightarrow> int" where
  "logical_size vsize = sint (vsize AND 0x7fffffff)"

definition materialize :: "bool \<Rightarrow> mem \<Rightarrow> int \<Rightarrow> dptr option" where
  "materialize bd m val =
     (case rd32 m (val + 8) of None \<Rightarrow> None
      | Some vsize \<Rightarrow>
          if vsize AND 0x80000000 \<noteq> 0 then Some (InHive (val + 12))
          else
            (case rd32 m (val + 12) of None \<Rightarrow> None
             | Some off \<Rightarrow>
                (case is_big bd m (sint off + 4) (logical_size vsize) of None \<Rightarrow> None
                 | Some True \<Rightarrow>
                     (case reassemble m (sint off) (logical_size vsize) of None \<Rightarrow> None
                      | Some blk \<Rightarrow> Some (InBlock blk))
                 | Some False \<Rightarrow> Some (InHive (sint off + 4)))))"

text \<open>\<open>big_data = (regf->major_version > 1 || regf->minor_version > 3)\<close> in \<open>main\<close>.\<close>

definition big_data_of :: "mem \<Rightarrow> bool option" where
  "big_data_of m =
     (case rd32 m (- 4096 + 20) of None \<Rightarrow> None
      | Some major \<Rightarrow>
          if sint major > 1 then Some True
          else (case rd32 m (- 4096 + 24) of None \<Rightarrow> None | Some minor \<Rightarrow> Some (sint minor > 3)))"

section \<open>Value Renderer\<close>

text \<open>The counting loops of the text heuristics, from \<open>i = 2\<close>.\<close>

function count16 :: "mem \<Rightarrow> int \<Rightarrow> int \<Rightarrow> int \<Rightarrow> int option" where
  "count16 d i n ascii =
     (if i < n then
        (case rd16 d (2 * i) of None \<Rightarrow> None
         | Some u \<Rightarrow> count16 d (i + 1) n (if printable16 u then ascii + 1 else ascii))
      else Some ascii)"
  by pat_completeness auto
termination
  by (relation "measure (\<lambda>(d, i, n, ascii). nat (n - i))") auto

function count8 :: "mem \<Rightarrow> int \<Rightarrow> int \<Rightarrow> int \<Rightarrow> int option" where
  "count8 d i n ascii =
     (if i < n then
        (case d i of None \<Rightarrow> None
         | Some b \<Rightarrow> count8 d (i + 1) n (if printable8 b then ascii + 1 else ascii))
      else Some ascii)"
  by pat_completeness auto
termination
  by (relation "measure (\<lambda>(d, i, n, ascii). nat (n - i))") auto

declare count16.simps [simp del]
declare count8.simps [simp del]

text \<open>The two hypotheses; each gives \<open>(ascii, min)\<close>.\<close>

definition text16_count :: "mem \<Rightarrow> int \<Rightarrow> (int \<times> int) option" where
  "text16_count d sz =
     (case rd16 d 0 of None \<Rightarrow> None
      | Some u0 \<Rightarrow>
          if printable16 u0 then
            (case rd16 d 2 of None \<Rightarrow> None
             | Some u1 \<Rightarrow>
                 if printable16 u1 then
                   (case count16 d 2 (tdiv sz 2) 2 of None \<Rightarrow> None
                    | Some ascii \<Rightarrow> Some (ascii * 2, 6))
                 else Some (0, 8))
          else Some (0, 8))"

definition text8_count :: "mem \<Rightarrow> int \<Rightarrow> (int \<times> int) option" where
  "text8_count d sz =
     (case d 0 of None \<Rightarrow> None
      | Some b0 \<Rightarrow>
          if printable8 b0 then
            (case d 1 of None \<Rightarrow> None
             | Some b1 \<Rightarrow>
                 if printable8 b1 then
                   (case count8 d 2 sz 2 of None \<Rightarrow> None
                    | Some ascii \<Rightarrow> Some (ascii, 7))
                 else Some (0, 8))
          else Some (0, 8))"

text \<open>
  \<open>bintext\<close>: 0, 8 or 16. The products \<open>ascii * 8\<close> and \<open>size * min\<close> are \<open>int\<close>
  arithmetic; beyond \<open>INT_MAX\<close> they overflow, which has no defined result.
\<close>

definition bin_text :: "mem \<Rightarrow> 32 word \<Rightarrow> int \<Rightarrow> int option" where
  "bin_text d type sz =
     (if (type = REG_BINARY \<or> type = REG_NONE) \<and> sz \<ge> 8 then
        (case d 1 of None \<Rightarrow> None
         | Some d1 \<Rightarrow>
            (case (if d1 = 0 then d 3 else Some d1) of None \<Rightarrow> None
             | Some d3 \<Rightarrow>
                (case (if d1 = 0 \<and> d3 = 0 then text16_count d sz else text8_count d sz) of
                   None \<Rightarrow> None
                 | Some (ascii, minv) \<Rightarrow>
                     if ascii * 8 > 2147483647 \<or> sz * minv > 2147483647 then None
                     else if ascii * 8 \<ge> sz * minv then Some (if d1 = 0 then 16 else 8)
                     else Some 0)))
      else Some 0)"

text \<open>The comma-separated hex bytes, the byte-text loop and the two string loops.\<close>

function hex_loop :: "mem \<Rightarrow> int \<Rightarrow> int \<Rightarrow> string option" where
  "hex_loop d i sz =
     (if i < sz then
        (case d i of None \<Rightarrow> None
         | Some b \<Rightarrow>
            (case hex_loop d (i + 1) sz of None \<Rightarrow> None
             | Some r \<Rightarrow> Some ((if i \<noteq> 0 then '','' else []) @ fmt_0X 2 (unat b) @ r)))
      else Some [])"
  by pat_completeness auto
termination
  by (relation "measure (\<lambda>(d, i, sz). nat (sz - i))") auto

function text_loop :: "mem \<Rightarrow> int \<Rightarrow> int \<Rightarrow> string option" where
  "text_loop d i sz =
     (if i < sz then
        (case d i of None \<Rightarrow> None
         | Some b \<Rightarrow>
            (case text_loop d (i + 1) sz of None \<Rightarrow> None
             | Some r \<Rightarrow> Some ((if printable8 b then [char_of_byte b] else esc8 b) @ r)))
      else Some [])"
  by pat_completeness auto
termination
  by (relation "measure (\<lambda>(d, i, sz). nat (sz - i))") auto

text \<open>\<open>while (size > 0 && us[size-1] == '\0') --size;\<close>\<close>

function strip_nul :: "mem \<Rightarrow> int \<Rightarrow> int option" where
  "strip_nul d sz =
     (if sz > 0 then
        (case rd16 d (2 * (sz - 1)) of None \<Rightarrow> None
         | Some u \<Rightarrow> if u = 0 then strip_nul d (sz - 1) else Some sz)
      else Some sz)"
  by pat_completeness auto
termination
  by (relation "measure (\<lambda>(d, sz). nat sz)") auto

text \<open>
  The loop over the code units. The second test reads \<open>us[i+1]\<close> only after
  \<open>us[i] == '\0' && type == REG_MULTI_SZ && i+1 < size\<close>; the \<open>break\<close> ends the text.
\<close>

function str_loop :: "mem \<Rightarrow> bool \<Rightarrow> int \<Rightarrow> 32 word \<Rightarrow> int \<Rightarrow> int \<Rightarrow> string option" where
  "str_loop d alls bintext type i sz =
     (if i < sz then
        (case rd16 d (2 * i) of None \<Rightarrow> None
         | Some u \<Rightarrow>
            if printable16 u then
              (case str_loop d alls bintext type (i + 1) sz of None \<Rightarrow> None
               | Some r \<Rightarrow> Some (char_of (unat u) # r))
            else
              (case (if u = 0 \<and> type = REG_MULTI_SZ \<and> i + 1 < sz
                     then (case rd16 d (2 * (i + 1)) of None \<Rightarrow> None
                           | Some v \<Rightarrow> Some (v \<noteq> 0))
                     else Some False) of
                 None \<Rightarrow> None
               | Some True \<Rightarrow>
                   (case str_loop d alls bintext type (i + 1) sz of None \<Rightarrow> None
                    | Some r \<Rightarrow> Some (''<>'' @ r))
               | Some False \<Rightarrow>
                   if u = 0 \<and> \<not> alls \<and> bintext = 0 then Some '' <...>''
                   else
                     (case str_loop d alls bintext type (i + 1) sz of None \<Rightarrow> None
                      | Some r \<Rightarrow> Some (esc16 u @ r))))
      else Some [])"
  by pat_completeness auto
termination
  by (relation "measure (\<lambda>(d, alls, bintext, type, i, sz). nat (sz - i))") auto

declare hex_loop.simps [simp del]
declare text_loop.simps [simp del]
declare strip_nul.simps [simp del]
declare str_loop.simps [simp del]

text \<open>
  The \<open>if\<close>/\<open>else if\<close> chain of the renderer, in the order of the source: first the
  branch that is taken, then its body. \<open>type\<close> is the effective type.
\<close>

datatype branch = Dword | DevBool | DevInt16 | Filetime | Qword | Str | BinText | HexBytes

definition is_filetime :: "64 word \<Rightarrow> bool" where
  "is_filetime v = (126227808000000000 \<le> sint v \<and> sint v < 157784544000000000)"

definition select_tail :: "32 word \<Rightarrow> int \<Rightarrow> int \<Rightarrow> branch" where
  "select_tail type sz bintext =
     (if type = REG_QWORD \<and> sz = 8 then Qword
      else if type = REG_SZ \<or> type = REG_MULTI_SZ \<or> type = REG_EXPAND_SZ \<or> type = REG_LINK
              \<or> bintext = 16 then Str
      else if bintext \<noteq> 0 then BinText
      else HexBytes)"

definition select_branch :: "bool \<Rightarrow> 32 word \<Rightarrow> int \<Rightarrow> int \<Rightarrow> mem \<Rightarrow> branch option" where
  "select_branch props type sz bintext d =
     (if type = REG_DWORD \<and> sz = 4 then Some Dword
      else if props \<and> sz = 1 \<and> type = (0xFFFF0000 OR DEVPROP_TYPE_BOOLEAN) then Some DevBool
      else if props \<and> sz = 2 \<and>
              (type = (0xFFFF0000 OR DEVPROP_TYPE_UINT16) \<or>
               type = (0xFFFF0000 OR DEVPROP_TYPE_INT16)) then Some DevInt16
      else if sz = 8 \<and> (type = REG_QWORD \<or> type = REG_BINARY \<or> type = REG_NONE) then
        (case rd64 d 0 of None \<Rightarrow> None
         | Some v \<Rightarrow> if is_filetime v then Some Filetime
                      else Some (select_tail type sz bintext))
      else Some (select_tail type sz bintext))"

definition render_branch ::
  "(int \<Rightarrow> tm option) \<Rightarrow> bool \<Rightarrow> 32 word \<Rightarrow> int \<Rightarrow> int \<Rightarrow> mem \<Rightarrow> branch \<Rightarrow> string option" where
  "render_branch lt_fun alls type sz bintext d br =
     (case br of
        Dword \<Rightarrow>
          (case rd32 d 0 of None \<Rightarrow> None
           | Some v \<Rightarrow> Some (''0x'' @ hex_nat (unat v) @ '' ('' @ fmt_d (sint v) @ '')''))
      | DevBool \<Rightarrow>
          (case d 0 of None \<Rightarrow> None
           | Some b \<Rightarrow> Some (if b = 0xFF then ''true'' else if b = 0 then ''false''
                              else fmt_0X 2 (unat b)))
      | DevInt16 \<Rightarrow>
          (case rd16 d 0 of None \<Rightarrow> None
           | Some v \<Rightarrow>
               if type AND 0xFFFF = DEVPROP_TYPE_UINT16
               then Some (''0x'' @ hex_nat (unat v) @ '' ('' @ dec_nat (unat v) @ '')'')
               else Some (''0x'' @ hex_nat (unat v) @ '' ('' @ fmt_d (sint v) @ '')''))
      | Filetime \<Rightarrow>
          (case rd64 d 0 of None \<Rightarrow> None
           | Some v \<Rightarrow>
              (case print_time lt_fun v False False of None \<Rightarrow> None
               | Some t \<Rightarrow>
                   if type = REG_QWORD
                   then Some (t @ '' (0x'' @ hex_nat (unat v) @ ''; '' @ fmt_d (sint v) @ '')'')
                   else (case hex_loop d 0 sz of None \<Rightarrow> None
                         | Some hx \<Rightarrow> Some (t @ '' ('' @ hx @ '')''))))
      | Qword \<Rightarrow>
          (case rd64 d 0 of None \<Rightarrow> None
           | Some v \<Rightarrow> Some (''0x'' @ hex_nat (unat v) @ '' ('' @ fmt_d (sint v) @ '')''))
      | Str \<Rightarrow>
          (case (if bintext = 0 then strip_nul d (tdiv sz 2) else Some (tdiv sz 2)) of
             None \<Rightarrow> None
           | Some n \<Rightarrow> str_loop d alls bintext type 0 n)
      | BinText \<Rightarrow> text_loop d 0 sz
      | HexBytes \<Rightarrow> hex_loop d 0 sz)"

definition render ::
  "(int \<Rightarrow> tm option) \<Rightarrow> bool \<Rightarrow> bool \<Rightarrow> 32 word \<Rightarrow> int \<Rightarrow> mem \<Rightarrow> string option" where
  "render lt_fun alls props type sz d =
     (case bin_text d type sz of None \<Rightarrow> None
      | Some bintext \<Rightarrow>
          (case select_branch props type sz bintext d of None \<Rightarrow> None
           | Some br \<Rightarrow> render_branch lt_fun alls type sz bintext d br))"

section \<open>Tree Walker: \<open>walk\<close>\<close>

text \<open>
  The option flags of \<open>main\<close>, the loaded hive and the time zone are fixed during a walk.
  What \<open>walk\<close> changes is the two static flags, the path buffer and standard output.
\<close>

record env =
  hex_type :: bool
  only_values :: bool
  only_keys :: bool
  all_string :: bool
  time_sec :: bool
  time_full :: bool
  big_data :: bool
  hive :: mem
  localtime :: "int \<Rightarrow> tm option"

record state =
  properties :: bool
  driverpackages :: bool
  pathbuf :: pathbuf
  stdout :: string

text \<open>\<open>leave_key\<close> is null or points to one of the two static flags.\<close>

datatype flag = Properties | DriverPackages

text \<open>
  One pass of the value loop body, for the value cell at \<open>val\<close> of the key cell at \<open>key\<close>:
  first the name of the value is put behind the path, then the line is printed.
  Fields of \<open>value_block\<close>: \<open>name_len\<close> at 6, \<open>size\<close> at 8, \<open>offset\<close> at 12, \<open>value_type\<close> at
  16, \<open>flags\<close> at 20, \<open>name\<close> at 24. The timestamp of \<open>key_block\<close> is at 8.
\<close>

definition value_name :: "mem \<Rightarrow> pathbuf \<Rightarrow> nat \<Rightarrow> int \<Rightarrow> pathbuf option" where
  "value_name m buf path val = do {
     buf1 \<leftarrow> pb_put buf path 0x2F;
     name_len \<leftarrow> rd16 m (val + 6);
     (if name_len = 0 then pb_puts buf1 (Suc path) [0x40, 0]
      else do {
        flags \<leftarrow> rd16 m (val + 20);
        r \<leftarrow> make_name m buf1 (Suc path) (val + 24) (sint name_len) (flags AND 0x01 \<noteq> 0);
        Some (fst r) })
   }"

definition value_line :: "env \<Rightarrow> state \<Rightarrow> nat \<Rightarrow> int \<Rightarrow> int \<Rightarrow> state option" where
  "value_line e s path key val = do {
     buf2 \<leftarrow> value_name (hive e) (pathbuf s) path val;
     stamp \<leftarrow> (if time_sec e \<or> time_full e
               then do { ts \<leftarrow> rd64 (hive e) (key + 8);
                         print_time (localtime e) ts (time_full e) True }
               else Some []);
     vsize \<leftarrow> rd32 (hive e) (val + 8);
     vtype \<leftarrow> rd32 (hive e) (val + 16);
     full \<leftarrow> cstr_from buf2 0;
     data \<leftarrow> materialize (big_data e) (hive e) val;
     txt \<leftarrow> render (localtime e) (all_string e) (properties s)
              (resolve_type (properties s) (driverpackages s) vtype)
              (logical_size vsize) (view (hive e) data);
     Some (s\<lparr>pathbuf := buf2,
             stdout := stdout s @ stamp @
               (if hex_type e
                then ''['' @ fmt_0X 8 (unat vtype) @ '':'' @
                     fmt_0X 8 (nat (logical_size vsize)) @ ''] '' @ full @ '' = ''
                else full @ '' ['' @ fmt_d (sint vtype) @ '':'' @
                     fmt_d (logical_size vsize) @ ''] = '') @
               txt @ ''\<newline>''\<rparr>)
   }"

text \<open>
  \<open>for (o = 0; o < key->value_count; ++o)\<close>; \<open>value_count\<close> is at 40 of \<open>key_block\<close>,
  \<open>vl\<close> is the address of the value list, whose offsets start at 4.
\<close>

function val_loop :: "env \<Rightarrow> int \<Rightarrow> int \<Rightarrow> nat \<Rightarrow> int \<Rightarrow> state \<Rightarrow> state option" where
  "val_loop e key vl path i s =
     (case rd32 (hive e) (key + 40) of None \<Rightarrow> None
      | Some vc \<Rightarrow>
          if i < sint vc then
            (case rd32 (hive e) (vl + 4 + 4 * i) of None \<Rightarrow> None
             | Some vo \<Rightarrow>
                (case value_line e s path key (sint vo) of None \<Rightarrow> None
                 | Some s' \<Rightarrow> val_loop e key vl path (i + 1) s'))
          else Some s)"
  by pat_completeness auto
termination
  by (relation "measure (\<lambda>(e, key, vl, path, i, s).
        case rd32 (hive e) (key + 40) of None \<Rightarrow> 0 | Some vc \<Rightarrow> nat (sint vc - i))") auto

declare val_loop.simps [simp del]

text \<open>
  The special-subtree tests at the head of \<open>walk\<close>. \<open>len\<close> is at 76 and \<open>name\<close> at 80 of
  \<open>key_block\<close>; \<open>memcmp\<close> compares the raw name bytes.
\<close>

definition enter_key :: "mem \<Rightarrow> int \<Rightarrow> state \<Rightarrow> (state \<times> flag option) option" where
  "enter_key m key s = do {
     len \<leftarrow> rd16 m (key + 76);
     r1 \<leftarrow> (if \<not> properties s \<and> sint len = 10 then do {
              nm \<leftarrow> rd_bytes m (key + 80) 10;
              Some (if nm = map byte_of_char ''Properties''
                    then (s\<lparr>properties := True\<rparr>, Some Properties) else (s, None)) }
            else Some (s, None));
     (if \<not> driverpackages (fst r1) \<and> sint len = 14 then do {
        nm \<leftarrow> rd_bytes m (key + 80) 14;
        Some (if nm = map byte_of_char ''DriverPackages''
              then ((fst r1)\<lparr>driverpackages := True\<rparr>, Some DriverPackages) else r1) }
      else Some r1)
   }"

text \<open>\<open>if (leave_key) *leave_key = FALSE;\<close>\<close>

definition leave :: "flag option \<Rightarrow> state \<Rightarrow> state" where
  "leave leave_key s = (case leave_key of
       None \<Rightarrow> s
     | Some Properties \<Rightarrow> s\<lparr>properties := False\<rparr>
     | Some DriverPackages \<Rightarrow> s\<lparr>driverpackages := False\<rparr>)"

text \<open>
  The loops over a subkey list. \<open>item\<close> is the address of the \<open>list_block\<close>: \<open>block_type\<close>
  at 4, \<open>count\<close> at 6, \<open>offsets\<close> from 8. \<open>rec\<close> is the recursive call of \<open>walk\<close> on the
  key cell at the given address. The loop over a leaf list reads \<open>item->offsets[i*ii]\<close>; the
  entries of the cell follow its header, and the read is taken by address, at
  \<open>8 + 4 * (i * ii)\<close>.
\<close>

function leaf_loop ::
  "(state \<Rightarrow> int \<Rightarrow> state option) \<Rightarrow> mem \<Rightarrow> int \<Rightarrow> int \<Rightarrow> int \<Rightarrow> state \<Rightarrow> state option" where
  "leaf_loop rec m item ii i s =
     (case rd16 m (item + 6) of None \<Rightarrow> None
      | Some cnt \<Rightarrow>
          if i < sint cnt then
            (case rd32 m (item + 8 + 4 * (i * ii)) of None \<Rightarrow> None
             | Some ko \<Rightarrow>
                (case rec s (sint ko) of None \<Rightarrow> None
                 | Some s' \<Rightarrow> leaf_loop rec m item ii (i + 1) s'))
          else Some s)"
  by pat_completeness auto
termination
  by (relation "measure (\<lambda>(rec, m, item, ii, i, s).
        case rd16 m (item + 6) of None \<Rightarrow> 0 | Some cnt \<Rightarrow> nat (sint cnt - i))") auto

text \<open>The stride: \<open>(block_type[1] == 'i') ? 1 : 2\<close>.\<close>

definition stride :: "byte \<Rightarrow> int" where
  "stride t1 = (if t1 = 0x69 then 1 else 2)"

text \<open>
  The loop over an index list reads \<open>item->offsets[i]\<close> with the loop counter as the index.
  \<open>list_block\<close> declares \<open>int offsets[1]\<close> and the member \<open>hash\<close> after it, so only index 0
  lies in the array: a read at an index from 1 on is out of bounds, the program has no
  defined behaviour there (a compiler may end the loop after its first round), and the
  model gives \<open>None\<close>.
\<close>

definition index_entry :: "mem \<Rightarrow> int \<Rightarrow> int \<Rightarrow> 32 word option" where
  "index_entry m item i = (if i = 0 then rd32 m (item + 8 + 4 * i) else None)"

function ri_loop ::
  "(state \<Rightarrow> int \<Rightarrow> state option) \<Rightarrow> mem \<Rightarrow> int \<Rightarrow> int \<Rightarrow> state \<Rightarrow> state option" where
  "ri_loop rec m item i s =
     (case rd16 m (item + 6) of None \<Rightarrow> None
      | Some cnt \<Rightarrow>
          if i < sint cnt then
            (case index_entry m item i of None \<Rightarrow> None
             | Some so \<Rightarrow>
                (case m (sint so + 5) of None \<Rightarrow> None
                 | Some t1 \<Rightarrow>
                    (case leaf_loop rec m (sint so) (stride t1) 0 s of None \<Rightarrow> None
                     | Some s' \<Rightarrow> ri_loop rec m item (i + 1) s')))
          else Some s)"
  by pat_completeness auto
termination
  by (relation "measure (\<lambda>(rec, m, item, i, s).
        case rd16 m (item + 6) of None \<Rightarrow> 0 | Some cnt \<Rightarrow> nat (sint cnt - i))") auto

declare leaf_loop.simps [simp del]
declare ri_loop.simps [simp del]

text \<open>
  The part of \<open>walk\<close> after the label \<open>children\<close>, up to the recursion: \<open>subkeys\<close> is at 32
  of \<open>key_block\<close>. The result is the state and \<open>empty_key\<close>.
\<close>

definition children ::
  "(state \<Rightarrow> int \<Rightarrow> state option) \<Rightarrow> mem \<Rightarrow> int \<Rightarrow> bool \<Rightarrow> state \<Rightarrow> (state \<times> bool) option" where
  "children rec m key empty_key s = do {
     subkeys \<leftarrow> rd32 m (key + 32);
     (if subkeys \<noteq> - 1 then do {
        cnt \<leftarrow> rd16 m (sint subkeys + 6);
        t0 \<leftarrow> m (sint subkeys + 4);
        s' \<leftarrow> (if t0 = 0x6C then do {
                  t1 \<leftarrow> m (sint subkeys + 5);
                  leaf_loop rec m (sint subkeys) (stride t1) 0 s }
                else ri_loop rec m (sint subkeys) 0 s);
        Some (s', if cnt \<noteq> 0 then False else empty_key) }
      else Some (s, empty_key))
   }"

text \<open>The line of an empty key, and the line of a key in keys-only mode.\<close>

definition key_line :: "env \<Rightarrow> int \<Rightarrow> state \<Rightarrow> state option" where
  "key_line e key s = do {
     stamp \<leftarrow> (if time_sec e \<or> time_full e
               then do { ts \<leftarrow> rd64 (hive e) (key + 8);
                         print_time (localtime e) ts (time_full e) True }
               else Some []);
     full \<leftarrow> cstr_from (pathbuf s) 0;
     Some (s\<lparr>stdout := stdout s @ stamp @
              (if hex_type e then replicate 20 CHR '' '' else []) @ full @ ''\<newline>''\<rparr>)
   }"

definition only_key_line :: "env \<Rightarrow> int \<Rightarrow> state \<Rightarrow> state option" where
  "only_key_line e key s = do {
     ts \<leftarrow> rd64 (hive e) (key + 8);
     stamp \<leftarrow> print_time (localtime e) ts (time_full e) True;
     full \<leftarrow> cstr_from (pathbuf s) 0;
     Some (s\<lparr>stdout := stdout s @ stamp @ full @ ''\<newline>''\<rparr>)
   }"

text \<open>
  The part of \<open>walk\<close> before the label \<open>children\<close>, after the key name has been added
  to the path: the result is the state, \<open>empty_key\<close> and \<open>leave_key\<close>.
\<close>

definition key_values ::
  "env \<Rightarrow> int \<Rightarrow> nat \<Rightarrow> state \<Rightarrow> (state \<times> bool \<times> flag option) option" where
  "key_values e key path s =
     (if only_keys e then do {
        s' \<leftarrow> only_key_line e key s;
        Some (s', False, None) }
      else do {
        r \<leftarrow> enter_key (hive e) key s;
        vc \<leftarrow> rd32 (hive e) (key + 40);
        vl \<leftarrow> rd32 (hive e) (key + 44);
        s' \<leftarrow> val_loop e key (sint vl) path 0 (fst r);
        Some (s', vc = 0, snd r) })"

text \<open>
  \<open>walk\<close> itself. The recursion of the source has no bound (a hive whose subkey lists
  form a cycle never returns), so the model counts the nesting depth down from \<open>fuel\<close>;
  \<open>None\<close> is a run with no defined result or one that needs a deeper nesting.
  Fields of \<open>key_block\<close>: \<open>flags\<close> at 6, \<open>len\<close> at 76, \<open>name\<close> at 80.
\<close>

fun walk :: "nat \<Rightarrow> env \<Rightarrow> state \<Rightarrow> nat \<Rightarrow> int \<Rightarrow> state option" where
  "walk 0 e s path key = None"
| "walk (Suc fuel) e s path key = do {
     buf1 \<leftarrow> pb_put (pathbuf s) path 0x2F;
     flags \<leftarrow> rd16 (hive e) (key + 6);
     len \<leftarrow> rd16 (hive e) (key + 76);
     r \<leftarrow> make_name (hive e) buf1 (Suc path) (key + 80) (sint len) (flags AND 0x20 \<noteq> 0);
     v \<leftarrow> key_values e key (snd r) (s\<lparr>pathbuf := fst r\<rparr>);
     c \<leftarrow> children (\<lambda>s' k. walk fuel e s' (snd r) k) (hive e) key (fst (snd v)) (fst v);
     s' \<leftarrow> (if snd c \<and> \<not> only_values e then key_line e key (fst c) else Some (fst c));
     Some (leave (snd (snd v)) s')
   }"

text \<open>The call of \<open>walk\<close> in \<open>main\<close>; \<open>root_cell_offset\<close> is at 36 of the base block.\<close>

definition dump_hive :: "nat \<Rightarrow> env \<Rightarrow> state \<Rightarrow> state option" where
  "dump_hive fuel e s = do {
     bd \<leftarrow> big_data_of (hive e);
     rco \<leftarrow> rd32 (hive e) (- 4096 + 36);
     walk fuel (e\<lparr>big_data := bd\<rparr>) s 0 (sint rco)
   }"

section \<open>Definitions used to state the properties\<close>

text \<open>\<open>poke buf out bs\<close> is the buffer \<open>buf\<close> with the bytes \<open>bs\<close> stored from index \<open>out\<close>.\<close>

definition poke :: "pathbuf \<Rightarrow> nat \<Rightarrow> byte list \<Rightarrow> pathbuf" where
  "poke buf out bs = (\<lambda>i. if out \<le> i \<and> i < out + length bs then bs ! (i - out) else buf i)"

text \<open>\<open>n\<close> UTF-16LE code units read from address \<open>a\<close>.\<close>

definition rd_units :: "mem \<Rightarrow> int \<Rightarrow> nat \<Rightarrow> 16 word list option" where
  "rd_units m a n = those (map (\<lambda>i. rd16 m (a + 2 * int i)) [0..<n])"

text \<open>A hive buffer whose cell space (from \<open>root\<close>) holds the given bytes.\<close>

definition cells :: "byte list \<Rightarrow> mem" where
  "cells bs = (\<lambda>a. if 0 \<le> a \<and> a < int (length bs) then Some (bs ! nat a) else None)"

text \<open>
  The Name Decoder as the specification words it: what one name byte and one name code
  unit contribute to the decoded text.
\<close>

definition spec_name_byte :: "byte \<Rightarrow> string" where
  "spec_name_byte b =
     (if 32 \<le> unat b \<and> unat b \<le> 126 then [char_of_byte b]
      else [CHR ''<'', hexdigit (unat b div 16), hexdigit (unat b mod 16), CHR ''>''])"

definition spec_name_unit :: "16 word \<Rightarrow> string" where
  "spec_name_unit u =
     (if 32 \<le> unat u \<and> unat u \<le> 126 then [char_of (unat u)]
      else if unat u < 0x100
        then [CHR ''<'', hexdigit (unat u div 16), hexdigit (unat u mod 16), CHR ''>'']
      else [CHR ''<'', hexdigit (unat u div 4096), hexdigit (unat u div 256 mod 16),
            hexdigit (unat u div 16 mod 16), hexdigit (unat u mod 16), CHR ''>''])"

text \<open>
  The Value Type Resolver as the specification words it, on the upper and lower 16 bits
  of the raw type code.
\<close>

definition spec_effective_type :: "bool \<Rightarrow> bool \<Rightarrow> 32 word \<Rightarrow> 32 word" where
  "spec_effective_type device_scope driver_scope raw =
     (let hi = drop_bit 16 raw; lo = take_bit 16 raw in
      if device_scope \<and> hi = 0xFFFF then
        (if lo = 6 \<or> lo = 7 then 4
         else if lo = 8 \<or> lo = 9 \<or> lo = 0x10 then 11
         else if lo = 0x12 \<or> lo = 0x19 then 1
         else if lo = 0x2012 then 7
         else raw)
      else if driver_scope then lo
      else raw)"

text \<open>Two hex digits of a byte, and bytes as comma-separated 2-digit hex.\<close>

definition hex2 :: "byte \<Rightarrow> string" where
  "hex2 b = [hexdigit (unat b div 16), hexdigit (unat b mod 16)]"

fun hex_csv :: "byte list \<Rightarrow> string" where
  "hex_csv [] = []"
| "hex_csv [b] = hex2 b"
| "hex_csv (b # c # r) = hex2 b @ '','' @ hex_csv (c # r)"

text \<open>
  String rendering as the specification words it, on the list of code units: the units
  without their trailing zeros, and the text of a list of units (printable ASCII as
  itself, \<open><>\<close> for a zero followed by a non-zero unit in a \<open>REG_MULTI_SZ\<close>,
  \<open> <...>\<close> and stop for another zero unless in full-string mode or under the heuristic,
  an escape otherwise).
\<close>

definition strip_zeros :: "16 word list \<Rightarrow> 16 word list" where
  "strip_zeros us = rev (dropWhile (\<lambda>u. u = 0) (rev us))"

fun render_units :: "bool \<Rightarrow> int \<Rightarrow> 32 word \<Rightarrow> 16 word list \<Rightarrow> string" where
  "render_units alls bintext type [] = []"
| "render_units alls bintext type (u # r) =
     (if 32 \<le> unat u \<and> unat u \<le> 126 then char_of (unat u) # render_units alls bintext type r
      else if u = 0 \<and> type = REG_MULTI_SZ \<and> r \<noteq> [] \<and> hd r \<noteq> 0
        then ''<>'' @ render_units alls bintext type r
      else if u = 0 \<and> \<not> alls \<and> bintext = 0 then '' <...>''
      else spec_name_unit u @ render_units alls bintext type r)"

text \<open>
  What a call of \<open>walk\<close> at position \<open>path\<close> keeps: the two flags and the bytes of the
  path buffer before \<open>path\<close>.
\<close>

definition keeps :: "nat \<Rightarrow> state \<Rightarrow> state \<Rightarrow> bool" where
  "keeps path s s' \<longleftrightarrow>
     properties s' = properties s \<and> driverpackages s' = driverpackages s \<and>
     (\<forall>i<path. pathbuf s' i = pathbuf s i)"

text \<open>
  A key cell named exactly \<open>nm\<close>: its \<open>len\<close> is the length of \<open>nm\<close> and its raw name bytes
  are those of \<open>nm\<close>.
\<close>

definition key_named :: "mem \<Rightarrow> int \<Rightarrow> string \<Rightarrow> bool" where
  "key_named m key nm \<longleftrightarrow>
     (\<exists>len. rd16 m (key + 76) = Some len \<and> sint len = int (length nm)) \<and>
     rd_bytes m (key + 80) (length nm) = Some (map byte_of_char nm)"

text \<open>
  The decoded text of a name as the specification words it, the text of the first \<open>n\<close>
  bytes of the path buffer, and the characters that are neither NUL nor a line feed.
\<close>

definition name_text :: "mem \<Rightarrow> int \<Rightarrow> int \<Rightarrow> bool \<Rightarrow> string option" where
  "name_text m inp len compressed =
     (if compressed
      then map_option (\<lambda>bs. concat (map spec_name_byte bs)) (rd_bytes m inp (nat len))
      else map_option (\<lambda>us. concat (map spec_name_unit us)) (rd_units m inp (nat (tdiv len 2))))"

definition path_text :: "pathbuf \<Rightarrow> nat \<Rightarrow> string" where
  "path_text buf n = map (\<lambda>i. char_of_byte (buf i)) [0..<n]"

definition plain :: "char \<Rightarrow> bool" where
  "plain c \<longleftrightarrow> byte_of_char c \<noteq> 0 \<and> c \<noteq> CHR ''\<newline>''"

text \<open>
  A key cell without subkeys: no subkey list (offset -1), or a list cell whose count is 0.
\<close>

definition no_subkeys :: "mem \<Rightarrow> int \<Rightarrow> bool" where
  "no_subkeys m key \<longleftrightarrow>
     (\<exists>sub. rd32 m (key + 32) = Some sub \<and>
        (sub = - 1 \<or>
         (rd16 m (sint sub + 6) = Some 0 \<and> m (sint sub + 4) \<noteq> None \<and> m (sint sub + 5) \<noteq> None)))"

text \<open>The number of line ends in a text.\<close>

definition newline_count :: "string \<Rightarrow> nat" where
  "newline_count s = length (filter (\<lambda>c. c = CHR ''\<newline>'') s)"

text \<open>
  The traversal of a subkey list as a list of key cell addresses: \<open>visit\<close> makes the
  recursive call on each address in turn; \<open>entries\<close> are the \<open>n\<close> offsets of a list cell
  taken at every \<open>step\<close>-th 4-byte slot; a leaf list has step 1 when the second character
  of its tag is \<open>i\<close> and 2 otherwise; an index list with one entry has the entries of the
  leaf list its entry points to, and one with a count of 0 or less has none.
\<close>

primrec visit :: "(state \<Rightarrow> int \<Rightarrow> state option) \<Rightarrow> int list \<Rightarrow> state \<Rightarrow> state option" where
  "visit rec [] s = Some s"
| "visit rec (k # ks) s = (case rec s k of None \<Rightarrow> None | Some s' \<Rightarrow> visit rec ks s')"

definition entries :: "mem \<Rightarrow> int \<Rightarrow> int \<Rightarrow> nat \<Rightarrow> int list option" where
  "entries m item step n =
     map_option (map sint) (those (map (\<lambda>i. rd32 m (item + 8 + 4 * (int i * step))) [0..<n]))"

definition leaf_entries :: "mem \<Rightarrow> int \<Rightarrow> int list option" where
  "leaf_entries m item =
     (case m (item + 5) of None \<Rightarrow> None
      | Some t1 \<Rightarrow>
         (case rd16 m (item + 6) of None \<Rightarrow> None
          | Some cnt \<Rightarrow> entries m item (if t1 = 0x69 then 1 else 2) (nat (sint cnt))))"

definition ri_entries :: "mem \<Rightarrow> int \<Rightarrow> int list option" where
  "ri_entries m item =
     (case rd16 m (item + 6) of None \<Rightarrow> None
      | Some cnt \<Rightarrow>
          if sint cnt \<le> 0 then Some []
          else if sint cnt = 1 then
            (case rd32 m (item + 8) of None \<Rightarrow> None
             | Some so \<Rightarrow> leaf_entries m (sint so))
          else None)"

section \<open>Example hives\<close>

text \<open>
  A value cell with the inline bit set and a stored length of 8, a plain environment (no
  option set) and the state at the first call of \<open>walk\<close>.
\<close>

definition vk_inline8 :: mem where
  "vk_inline8 = cells [0xE0, 0xFF, 0xFF, 0xFF, 0x76, 0x6B, 0, 0,
                       0x08, 0, 0, 0x80, 0x78, 0x56, 0x34, 0x12,
                       0x03, 0, 0, 0, 0, 0, 0, 0]"

definition plain_env :: "mem \<Rightarrow> env" where
  "plain_env m = \<lparr>hex_type = False, only_values = False, only_keys = False, all_string = False,
                  time_sec = False, time_full = False, big_data = False, hive = m,
                  localtime = (\<lambda>_. None)\<rparr>"

definition init_state :: state where
  "init_state = \<lparr>properties = False, driverpackages = False, pathbuf = (\<lambda>_. 0), stdout = []\<rparr>"

text \<open>
  A hive with big-data support (minor version 5) holding a value of 16345 bytes: the
  value cell at 30000, its \<open>db\<close> cell at 0 with two segments, at 100 and at 20000.
\<close>

definition big_hive :: mem where
  "big_hive = (\<lambda>a. if - 4096 \<le> a \<and> a < 40000 then
       Some (if a = - 4072 then 5 else if a = 4 then 0x64 else if a = 5 then 0x62
             else if a = 6 then 2 else if a = 8 then 16 else if a = 20 then 100
             else if a = 24 then 0x20 else if a = 25 then 0x4E
             else if a = 30008 then 0xD9 else if a = 30009 then 0x3F else 0)
     else None)"

text \<open>Segment lengths of a value of \<open>S\<close> bytes in \<open>n\<close> segments, as the specification states them.\<close>

definition seg_len :: "int \<Rightarrow> nat \<Rightarrow> nat \<Rightarrow> nat" where
  "seg_len S n i = (if i + 1 < n then 16344 else nat (S - 16344 * (int n - 1)))"

text \<open>
  The code units \<open>A, 0, B, 0, 0\<close> and \<open>A, 0\<close>; the FILETIME of 2001-01-01 00:00:00 UTC as 8
  bytes, and a \<open>localtime\<close> that knows this one instant.
\<close>

definition multi_ab :: mem where
  "multi_ab = cells [0x41, 0, 0, 0, 0x42, 0, 0, 0, 0, 0]"

definition sz_a0 :: mem where
  "sz_a0 = cells [0x41, 0, 0, 0]"

definition y2001 :: mem where
  "y2001 = cells [0x00, 0xC0, 0x9D, 0xC8, 0x85, 0x73, 0xC0, 0x01]"

definition utc :: "int \<Rightarrow> tm option" where
  "utc secs = (if secs = 978307200
     then Some \<lparr>tm_year = 101, tm_mon = 0, tm_mday = 1, tm_hour = 0, tm_min = 0, tm_sec = 0\<rparr>
     else None)"

text \<open>
  A hive with one key cell at 0, named \<open>Properties\<close> (compressed), without values and
  without subkeys; and a state whose path buffer is filled with the letter \<open>a\<close>.
\<close>

definition prop_key :: mem where
  "prop_key = (\<lambda>a. if 0 \<le> a \<and> a < 90 then
       Some (if a = 6 then 0x20 else if 32 \<le> a \<and> a < 36 then 0xFF
             else if 44 \<le> a \<and> a < 48 then 0xFF else if a = 76 then 10
             else if 80 \<le> a then map byte_of_char ''Properties'' ! nat (a - 80) else 0)
     else None)"

definition busy_state :: state where
  "busy_state = \<lparr>properties = False, driverpackages = False, pathbuf = (\<lambda>_. 0x61), stdout = []\<rparr>"

text \<open>
  A hive with four key cells, \<open>R\<close> at 0, \<open>A\<close> at 256, \<open>B\<close> at 512 and \<open>C\<close> at 768, none with
  values; \<open>R\<close> has the subkey list at 128, an \<open>li\<close> cell with count 2 whose 4-byte slots
  hold 256, 512 and 768.
\<close>

definition li_hive :: mem where
  "li_hive = (\<lambda>a. if 0 \<le> a \<and> a < 1024 then
       Some (if a mod 256 = 6 then 0x20
             else if a = 32 then 128
             else if 256 \<le> a \<and> 32 \<le> a mod 256 \<and> a mod 256 < 36 then 0xFF
             else if 44 \<le> a mod 256 \<and> a mod 256 < 48 then 0xFF
             else if a mod 256 = 76 then 1
             else if a = 80 then 0x52 else if a = 336 then 0x41
             else if a = 592 then 0x42 else if a = 848 then 0x43
             else if a = 132 then 0x6C else if a = 133 then 0x69 else if a = 134 then 2
             else if a = 137 then 1 else if a = 141 then 2 else if a = 145 then 3
             else 0)
     else None)"

text \<open>
  The same keys under an index list: the cell at 128 is an \<open>ri\<close> cell with count 1 whose
  entry points to the cell at 192, an \<open>lf\<close> cell with count 2 whose 4-byte slots hold 256,
  a hash (768), and 512.
\<close>

definition ri_hive :: mem where
  "ri_hive = (\<lambda>a. if a = 132 then Some 0x72 else if a = 134 then Some 1
       else if a = 136 then Some 0xC0 else if a = 137 then Some 0
       else if a = 196 then Some 0x6C else if a = 197 then Some 0x66
       else if a = 198 then Some 2
       else if a = 201 then Some 1 else if a = 205 then Some 3 else if a = 209 then Some 2
       else li_hive a)"

section \<open>Auxiliary facts\<close>

lemmas char_eval = char_of_def bit_Suc_0_iff

lemma pb_puts_poke:
  "pb_puts buf out bs = (if bs = [] \<or> out + length bs \<le> path_size then Some (poke buf out bs) else None)"
proof (induction bs arbitrary: buf out)
  case Nil
  show ?case by (auto simp: poke_def fun_eq_iff)
next
  case (Cons c cs)
  have eq: "poke (buf(out := c)) (Suc out) cs = poke buf out (c # cs)"
  proof (rule ext)
    fix i
    show "poke (buf(out := c)) (Suc out) cs i = poke buf out (c # cs) i"
    proof (cases "Suc out \<le> i")
      case True
      then have "i - out = Suc (i - Suc out)" by simp
      with True show ?thesis by (simp add: poke_def)
    next
      case False
      then show ?thesis by (simp add: poke_def)
    qed
  qed
  show ?case
  proof (cases "out < path_size")
    case True
    then have "pb_puts buf out (c # cs) = pb_puts (buf(out := c)) (Suc out) cs"
      by (simp add: pb_put_def)
    also have "\<dots> = (if cs = [] \<or> Suc out + length cs \<le> path_size
                       then Some (poke buf out (c # cs)) else None)"
      by (simp only: Cons eq)
    also have "\<dots> = (if c # cs = [] \<or> out + length (c # cs) \<le> path_size
                       then Some (poke buf out (c # cs)) else None)"
      using True by auto
    finally show ?thesis .
  next
    case False
    then show ?thesis by (simp add: pb_put_def)
  qed
qed

lemma rd_bytes_0: "rd_bytes m a 0 = Some []"
  by (simp add: rd_bytes_def)

lemma rd_bytes_Suc:
  "rd_bytes m a (Suc n) =
     (case m a of None \<Rightarrow> None | Some b \<Rightarrow> map_option (Cons b) (rd_bytes m (a + 1) n))"
proof -
  have "[0..<Suc n] = 0 # map Suc [0..<n]"
    by (simp add: upt_conv_Cons map_Suc_upt del: upt_Suc)
  then have "map (\<lambda>i. m (a + int i)) [0..<Suc n] = m a # map (\<lambda>i. m (a + 1 + int i)) [0..<n]"
    by (simp add: o_def add.assoc del: upt_Suc)
  then show ?thesis
    by (cases "m a") (simp_all add: rd_bytes_def del: upt_Suc)
qed

lemma rd_bytes_Some_Cons:
  "rd_bytes m a (Suc n) = Some bs \<longleftrightarrow>
     (\<exists>b bs'. bs = b # bs' \<and> m a = Some b \<and> rd_bytes m (a + 1) n = Some bs')"
  by (auto simp: rd_bytes_Suc split: option.splits)

lemma rd_bytes_length: "rd_bytes m a n = Some bs \<Longrightarrow> length bs = n"
  by (induction n arbitrary: a bs) (auto simp: rd_bytes_0 rd_bytes_Suc split: option.splits)

lemma rd_units_0: "rd_units m a 0 = Some []"
  by (simp add: rd_units_def)

lemma rd_units_Suc:
  "rd_units m a (Suc n) =
     (case rd16 m a of None \<Rightarrow> None | Some u \<Rightarrow> map_option (Cons u) (rd_units m (a + 2) n))"
proof -
  have "[0..<Suc n] = 0 # map Suc [0..<n]"
    by (simp add: upt_conv_Cons map_Suc_upt del: upt_Suc)
  then have "map (\<lambda>i. rd16 m (a + 2 * int i)) [0..<Suc n]
      = rd16 m a # map (\<lambda>i. rd16 m (a + 2 + 2 * int i)) [0..<n]"
    by (simp add: o_def add.assoc del: upt_Suc)
  then show ?thesis
    by (cases "rd16 m a") (simp_all add: rd_units_def del: upt_Suc)
qed

lemma hexdigit_0: "hexdigit 0 = CHR ''0''"
  by (simp add: hexdigit_def)

lemma hex_nat_lt16: "n < 16 \<Longrightarrow> hex_nat n = [hexdigit n]"
  by (simp add: hex_nat.simps[of n])

lemma hex_nat_ge16: "16 \<le> n \<Longrightarrow> hex_nat n = hex_nat (n div 16) @ [hexdigit (n mod 16)]"
  by (simp add: hex_nat.simps[of n])

lemma fmt_0X_2: "n < 256 \<Longrightarrow> fmt_0X 2 n = [hexdigit (n div 16), hexdigit (n mod 16)]"
proof (cases "n < 16")
  case True
  then show ?thesis by (simp add: fmt_0X_def pad0_def hex_nat_lt16 hexdigit_0)
next
  case False
  assume "n < 256"
  then have "n div 16 < 16" by simp
  with False show ?thesis by (simp add: fmt_0X_def pad0_def hex_nat_ge16 hex_nat_lt16)
qed

lemma fmt_0X_4:
  "256 \<le> n \<Longrightarrow> n < 65536 \<Longrightarrow>
   fmt_0X 4 n = [hexdigit (n div 4096), hexdigit (n div 256 mod 16),
                 hexdigit (n div 16 mod 16), hexdigit (n mod 16)]"
proof -
  assume lo: "256 \<le> n" and hi: "n < 65536"
  have d1: "16 \<le> n" and d2: "16 \<le> n div 16" using lo by simp_all
  have e: "n div 16 div 16 = n div 256" "n div 16 div 16 div 16 = n div 4096"
    "n div 256 div 16 = n div 4096"
    by (simp_all add: div_mult2_eq[symmetric])
  show ?thesis
  proof (cases "n div 256 < 16")
    case True
    then have "n div 4096 = 0" by simp
    with True show ?thesis
      by (simp add: fmt_0X_def pad0_def hex_nat_ge16[OF d1] hex_nat_ge16[OF d2] e
          hex_nat_lt16 hexdigit_0)
  next
    case False
    have "n div 4096 < 16" using hi by simp
    with False show ?thesis
      by (simp add: fmt_0X_def pad0_def hex_nat_ge16[OF d1] hex_nat_ge16[OF d2] e
          hex_nat_ge16[of "n div 256"] hex_nat_lt16)
  qed
qed

lemma piece8: "(if printable8 b then [char_of_byte b] else esc8 b) = spec_name_byte b"
proof -
  have "unat b < 256" using unsigned_less[of b, where ?'a = nat] by simp
  then show ?thesis
    by (auto simp: printable8_def esc8_def spec_name_byte_def fmt_0X_2)
qed

lemma piece16: "(if printable16 u then [char_of (unat u)] else esc16 u) = spec_name_unit u"
proof -
  have "unat u < 65536" using unsigned_less[of u, where ?'a = nat] by simp
  then show ?thesis
    by (auto simp: printable16_def esc16_def spec_name_unit_def fmt_0X_2 fmt_0X_4)
qed


lemma rd_units_length: "rd_units m a n = Some us \<Longrightarrow> length us = n"
  by (induction n arbitrary: a us) (auto simp: rd_units_0 rd_units_Suc split: option.splits)

lemma poke_poke:
  "ys \<noteq> [] \<Longrightarrow> poke (poke buf out (xs @ [z])) (out + length xs) ys = poke buf out (xs @ ys)"
proof (rule ext)
  fix i
  assume ne: "ys \<noteq> []"
  then have len: "0 < length ys" by simp
  consider "i < out" | "out \<le> i" "i < out + length xs"
    | "out + length xs \<le> i" "i < out + length xs + length ys"
    | "out + length xs + length ys \<le> i" by linarith
  then show "poke (poke buf out (xs @ [z])) (out + length xs) ys i = poke buf out (xs @ ys) i"
  proof cases
    case 1
    then show ?thesis by (simp add: poke_def)
  next
    case 2
    then have "i - out < length xs" "\<not> out + length xs \<le> i" by simp_all
    with 2 show ?thesis by (simp add: poke_def nth_append)
  next
    case 3
    then have "\<not> i - out < length xs" "i - out - length xs = i - (out + length xs)" by simp_all
    with 3 show ?thesis by (simp add: poke_def nth_append)
  next
    case 4
    have a: "\<not> i < out + length xs + length ys" using 4 by simp
    have b: "\<not> i < Suc (out + length xs)" using 4 ne by (cases ys) simp_all
    from a b show ?thesis by (simp add: poke_def)
  qed
qed

lemma byte_char_byte: "byte_of_char (char_of_byte b) = b"
proof -
  have "unat b < 256" using unsigned_less[of b, where ?'a = nat] by simp
  have "(of_char (char_of (unat b)) :: byte) = of_nat (of_char (char_of (unat b)) :: nat)"
    by (simp only: of_nat_of_char)
  also have "\<dots> = of_nat (unat b mod 256)" by (simp only: of_char_of)
  also have "\<dots> = of_nat (unat b)" using \<open>unat b < 256\<close> by simp
  also have "\<dots> = b" by simp
  finally show ?thesis by (simp add: byte_of_char_def char_of_byte_def)
qed

lemma sprintf_at_Cons:
  "sprintf_at buf out (c # s) =
     (case pb_put buf out (byte_of_char c) of None \<Rightarrow> None
      | Some buf' \<Rightarrow> sprintf_at buf' (Suc out) s)"
  by (cases "pb_put buf out (byte_of_char c)") (simp_all add: sprintf_at_def)

lemma sprintf_at_append:
  "sprintf_at buf out (e @ s) =
     (case sprintf_at buf out e of None \<Rightarrow> None
      | Some buf' \<Rightarrow> sprintf_at buf' (out + length e) s)"
proof -
  have ne: "map byte_of_char s @ [0] \<noteq> []" by simp
  show ?thesis
    using poke_poke[OF ne, of buf out "map byte_of_char e" 0]
    by (auto simp: sprintf_at_def pb_puts_poke)
qed

lemma make_name_comp_eq:
  "rd_bytes m uc (nat (len - i)) = Some bs \<Longrightarrow>
   (case make_name_comp m buf out uc i len of None \<Rightarrow> None
    | Some (buf', out') \<Rightarrow>
        (case pb_put buf' out' 0 of None \<Rightarrow> None | Some buf'' \<Rightarrow> Some (buf'', out')))
   = (case sprintf_at buf out (concat (map spec_name_byte bs)) of None \<Rightarrow> None
      | Some b \<Rightarrow> Some (b, out + length (concat (map spec_name_byte bs))))"
proof (induction bs arbitrary: buf out uc i)
  case Nil
  then have "nat (len - i) = 0" using rd_bytes_length by fastforce
  then have "\<not> i < len" by simp
  then show ?case
    by (simp add: make_name_comp.simps[of m buf out uc i len] sprintf_at_def split: option.splits)
next
  case (Cons b bs)
  have n: "nat (len - i) = Suc (nat (len - (i + 1)))" and lt: "i < len"
    using rd_bytes_length[OF Cons.prems] by simp_all
  from Cons.prems have mb: "m uc = Some b" and rest: "rd_bytes m (uc + 1) (nat (len - (i + 1))) = Some bs"
    unfolding n by (auto simp: rd_bytes_Some_Cons)
  note IH = Cons.IH[OF rest]
  show ?case
  proof (cases "printable8 b")
    case True
    then have sp: "spec_name_byte b = [char_of_byte b]"
      using piece8[of b] by simp
    show ?thesis
    proof (cases "pb_put buf out b")
      case None
      with True lt mb show ?thesis
        by (simp add: make_name_comp.simps[of m buf out uc i len] sp sprintf_at_Cons
            byte_char_byte)
    next
      case (Some buf')
      with True lt mb IH[of buf' "Suc out"] show ?thesis
        by (simp add: make_name_comp.simps[of m buf out uc i len] sp sprintf_at_Cons
            byte_char_byte split: option.split)
    qed
  next
    case False
    then have sp: "spec_name_byte b = esc8 b"
      using piece8[of b] by simp
    show ?thesis
    proof (cases "sprintf_at buf out (esc8 b)")
      case None
      with False lt mb show ?thesis
        by (simp add: make_name_comp.simps[of m buf out uc i len] sp sprintf_at_append)
    next
      case (Some buf')
      with False lt mb IH[of buf' "out + length (esc8 b)"] show ?thesis
        by (simp add: make_name_comp.simps[of m buf out uc i len] sp sprintf_at_append
            add.assoc split: option.split)
    qed
  qed
qed

lemma rd_units_Some_Cons:
  "rd_units m a (Suc n) = Some us \<longleftrightarrow>
     (\<exists>u us'. us = u # us' \<and> rd16 m a = Some u \<and> rd_units m (a + 2) n = Some us')"
  by (auto simp: rd_units_Suc split: option.splits)

lemma byte_char_unit: "unat u < 256 \<Longrightarrow> byte_of_char (char_of (unat u)) = ucast u"
proof -
  assume lt: "unat u < 256"
  have "(of_char (char_of (unat u)) :: byte) = of_nat (of_char (char_of (unat u)) :: nat)"
    by (simp only: of_nat_of_char)
  also have "\<dots> = of_nat (unat u mod 256)" by (simp only: of_char_of)
  also have "\<dots> = of_nat (unat u)" using lt by simp
  also have "\<dots> = ucast u" by simp
  finally show ?thesis by (simp add: byte_of_char_def)
qed

lemma make_name_wide_eq:
  "rd_units m us (nat (tdiv len 2 - i)) = Some xs \<Longrightarrow>
   (case make_name_wide m buf out us i len of None \<Rightarrow> None
    | Some (buf', out') \<Rightarrow>
        (case pb_put buf' out' 0 of None \<Rightarrow> None | Some buf'' \<Rightarrow> Some (buf'', out')))
   = (case sprintf_at buf out (concat (map spec_name_unit xs)) of None \<Rightarrow> None
      | Some b \<Rightarrow> Some (b, out + length (concat (map spec_name_unit xs))))"
proof (induction xs arbitrary: buf out us i)
  case Nil
  then have "nat (tdiv len 2 - i) = 0" using rd_units_length by fastforce
  then have "\<not> i < tdiv len 2" by simp
  then show ?case
    by (simp add: make_name_wide.simps[of m buf out us i len] sprintf_at_def split: option.splits)
next
  case (Cons u xs)
  have n: "nat (tdiv len 2 - i) = Suc (nat (tdiv len 2 - (i + 1)))" and lt: "i < tdiv len 2"
    using rd_units_length[OF Cons.prems] by simp_all
  from Cons.prems have mb: "rd16 m us = Some u"
    and rest: "rd_units m (us + 2) (nat (tdiv len 2 - (i + 1))) = Some xs"
    unfolding n by (auto simp: rd_units_Some_Cons)
  note IH = Cons.IH[OF rest]
  show ?case
  proof (cases "printable16 u")
    case True
    then have sp: "spec_name_unit u = [char_of (unat u)]"
      using piece16[of u] by simp
    from True have bc: "byte_of_char (char_of (unat u)) = ucast u"
      by (intro byte_char_unit) (simp add: printable16_def)
    show ?thesis
    proof (cases "pb_put buf out (ucast u)")
      case None
      with True lt mb show ?thesis
        by (simp add: make_name_wide.simps[of m buf out us i len] sp sprintf_at_Cons bc)
    next
      case (Some buf')
      with True lt mb IH[of buf' "Suc out"] show ?thesis
        by (simp add: make_name_wide.simps[of m buf out us i len] sp sprintf_at_Cons bc
            split: option.split)
    qed
  next
    case False
    then have sp: "spec_name_unit u = esc16 u"
      using piece16[of u] by simp
    show ?thesis
    proof (cases "sprintf_at buf out (esc16 u)")
      case None
      with False lt mb show ?thesis
        by (simp add: make_name_wide.simps[of m buf out us i len] sp sprintf_at_append)
    next
      case (Some buf')
      with False lt mb IH[of buf' "out + length (esc16 u)"] show ?thesis
        by (simp add: make_name_wide.simps[of m buf out us i len] sp sprintf_at_append
            add.assoc split: option.split)
    qed
  qed
qed

lemma hi_mask_eq: "(0xFFFF0000 :: 32 word) = push_bit 16 (mask 16)" by (simp add: mask_eq_exp_minus_1)
lemma lo_mask_eq: "(0xFFFF :: 32 word) = mask 16" by (simp add: mask_eq_exp_minus_1)
lemma upper16: "(t :: 32 word) AND 0xFFFF0000 = 0xFFFF0000 \<longleftrightarrow> drop_bit 16 t = 0xFFFF"
proof
  assume a: "t AND 0xFFFF0000 = 0xFFFF0000"
  have "drop_bit 16 (t AND 0xFFFF0000) = drop_bit 16 t AND drop_bit 16 (0xFFFF0000 :: 32 word)"
    by (simp add: bit_eq_iff bit_simps)
  also have "drop_bit 16 (0xFFFF0000 :: 32 word) = mask 16" by (simp add: mask_eq_exp_minus_1 drop_bit_eq_div)
  also have "drop_bit 16 t AND mask 16 = take_bit 16 (drop_bit 16 t)" by (simp add: take_bit_eq_mask)
  also have "\<dots> = drop_bit 16 t" by (rule bit_eqI) (auto simp: bit_simps dest: bit_imp_le_length)
  finally have "drop_bit 16 t = drop_bit 16 (0xFFFF0000 :: 32 word)" using a by simp
  then show "drop_bit 16 t = 0xFFFF" by (simp add: drop_bit_eq_div)
next
  assume a: "drop_bit 16 t = 0xFFFF"
  have "t AND push_bit 16 (mask 16) = push_bit 16 (drop_bit 16 t AND mask 16)"
    by (rule bit_eqI) (auto simp: bit_simps)
  also have "\<dots> = push_bit 16 (mask 16)" unfolding a lo_mask_eq by simp
  finally show "t AND 0xFFFF0000 = 0xFFFF0000" unfolding hi_mask_eq .
qed

lemma lower16: "(t :: 32 word) AND 0xFFFF = take_bit 16 t"
  unfolding lo_mask_eq by (simp add: take_bit_eq_mask)


lemma rd_bytes_tabulate:
  "(\<And>j. j < n \<Longrightarrow> m (a + int j) = Some (f j)) \<Longrightarrow> rd_bytes m a n = Some (map f [0..<n])"
proof (induction n arbitrary: a f)
  case 0
  show ?case by (simp add: rd_bytes_0)
next
  case (Suc n)
  have h: "m a = Some (f 0)" using Suc.prems[of 0] by simp
  have "rd_bytes m (a + 1) n = Some (map (\<lambda>j. f (Suc j)) [0..<n])"
  proof (rule Suc.IH)
    fix j assume "j < n"
    then show "m (a + 1 + int j) = Some (f (Suc j))" using Suc.prems[of "Suc j"] by (simp add: add.assoc)
  qed
  moreover have "[0..<Suc n] = 0 # map Suc [0..<n]"
    by (simp add: upt_conv_Cons map_Suc_upt del: upt_Suc)
  ultimately show ?case using h by (simp add: rd_bytes_Suc o_def del: upt_Suc)
qed

lemma copy_len_mid: "16344 * (int k + 1) < S \<Longrightarrow> copy_len (S - 16344 * int k) = 16344"
  by (simp add: copy_len_def)

lemma copy_len_last: "S \<le> 16344 * (int k + 1) \<Longrightarrow> copy_len (S - 16344 * int k) = S - 16344 * int k"
  by (simp add: copy_len_def)

lemma big_loop_inv:
  assumes cnt: "rd16 m (item + 6) = Some cnt" "sint cnt = int n"
    and n: "16344 * (int n - 1) < S" "S \<le> 16344 * int n"
    and offs: "\<And>i. i < n \<Longrightarrow> rd32 m (dl + 4 + 4 * int i) = Some (offs i)"
    and segs: "\<And>i. i < n \<Longrightarrow> rd_bytes m (sint (offs i) + 4) (seg_len S n i) = Some (segs i)"
    and k: "k \<le> n"
  shows "big_loop m item dl (int k) (16344 * int k) (S - 16344 * int k)
           (map Some (concat (map segs [0..<k])) @ replicate (nat (S - 16344 * int k)) None)
         = Some (map Some (concat (map segs [0..<n])))"
  using k
proof (induction "n - k" arbitrary: k)
  case 0
  then have kn: "k = n" by simp
  have "nat (S - 16344 * int n) = 0" using n by simp
  then show ?case
    using cnt by (simp add: kn big_loop.simps[of m item dl "int n"])
next
  case (Suc d)
  then have lt: "k < n" by simp
  have lens: "\<And>i. i < n \<Longrightarrow> length (segs i) = seg_len S n i"
    using segs rd_bytes_length by blast
  have pre: "length (concat (map segs [0..<k])) = 16344 * k"
  proof -
    have "\<And>i. i < k \<Longrightarrow> length (segs i) = 16344"
      using lens lt by (simp add: seg_len_def)
    then have "map (length \<circ> segs) [0..<k] = replicate k 16344"
      by (intro replicate_eqI) auto
    then show ?thesis by (simp add: length_concat sum_list_replicate)
  qed
  have cl: "copy_len (S - 16344 * int k) = int (seg_len S n k)"
  proof (cases "k + 1 < n")
    case True
    then have "16344 * (int k + 1) < S" using n by simp
    with True show ?thesis by (simp add: copy_len_mid seg_len_def)
  next
    case False
    then have e: "int n - 1 = int k" using lt by simp
    then have "S \<le> 16344 * (int k + 1)" using n by simp
    with False n e show ?thesis by (simp add: copy_len_last seg_len_def)
  qed
  have pos: "0 < seg_len S n k" using n by (simp add: seg_len_def)
  have fit: "16344 * int k + int (seg_len S n k) \<le> S"
    using n lt by (auto simp: seg_len_def)
  let ?blk = "map Some (concat (map segs [0..<k])) @ replicate (nat (S - 16344 * int k)) None"
  have mc: "memcpy_blk m ?blk (16344 * int k) (sint (offs k) + 4) (copy_len (S - 16344 * int k))
      = Some (map Some (concat (map segs [0..<Suc k])) @ replicate (nat (S - 16344 * int (Suc k))) None)"
  proof -
    have len_blk: "int (length ?blk) = S" using pre fit by simp
    have tk: "take (nat (16344 * int k)) ?blk = map Some (concat (map segs [0..<k]))"
      using pre by (simp add: nat_mult_distrib)
    have dr: "drop (nat (16344 * int k + int (seg_len S n k))) ?blk
        = replicate (nat (S - 16344 * int k) - seg_len S n k) None"
      using pre by (simp add: nat_add_distrib nat_mult_distrib)
    have rest: "nat (S - 16344 * int k) - seg_len S n k = nat (S - 16344 * int (Suc k))"
    proof (cases "k + 1 < n")
      case True
      then show ?thesis by (simp add: seg_len_def) 
    next
      case False
      then have e: "int n - 1 = int k" using lt by simp
      with False n show ?thesis by (simp add: seg_len_def)
    qed
    show ?thesis
      unfolding memcpy_blk_def cl
      using segs[OF lt] pos fit len_blk tk dr rest
      by (simp del: upt_Suc add: upt_Suc_append)
  qed
  have "big_loop m item dl (int k) (16344 * int k) (S - 16344 * int k) ?blk
      = big_loop m item dl (int (Suc k)) (16344 * int (Suc k)) (S - 16344 * int (Suc k))
          (map Some (concat (map segs [0..<Suc k])) @ replicate (nat (S - 16344 * int (Suc k))) None)"
    using cnt lt offs[OF lt] mc
    by (simp add: big_loop.simps[of m item dl "int k"] algebra_simps del: upt_Suc)
  also have "\<dots> = Some (map Some (concat (map segs [0..<n])))"
    using Suc.hyps(1)[of "Suc k"] Suc.hyps(2) lt by simp
  finally show ?case .
qed


lemma memcpy_blk_length: "memcpy_blk m blk dpos src n = Some blk' \<Longrightarrow> 0 \<le> dpos \<Longrightarrow> length blk' = length blk"
  by (auto simp: memcpy_blk_def split: if_splits option.splits dest!: rd_bytes_length)

lemma big_loop_length:
  "big_loop m item dl i dpos left blk = Some blk' \<Longrightarrow> 0 \<le> dpos \<Longrightarrow> 0 \<le> i \<Longrightarrow> length blk' = length blk"
proof (induction m item dl i dpos left blk rule: big_loop.induct)
  case (1 m item dl i dpos left blk)
  show ?case
  proof (cases "rd16 m (item + 6)")
    case None
    with "1.prems" show ?thesis by (simp add: big_loop.simps[of m item dl i])
  next
    case (Some cnt)
    show ?thesis
    proof (cases "i < sint cnt")
      case False
      with Some "1.prems" show ?thesis by (simp add: big_loop.simps[of m item dl i])
    next
      case True
      from "1.prems"(1) Some True obtain so blk1 where
        so: "rd32 m (dl + 4 + 4 * i) = Some so"
        and mc: "memcpy_blk m blk dpos (sint so + 4) (copy_len left) = Some blk1"
        and rest: "big_loop m item dl (i + 1) (dpos + 16344) (left - 16344) blk1 = Some blk'"
        by (auto simp: big_loop.simps[of m item dl i] split: option.splits)
      have "length blk' = length blk1"
        using "1.IH"[OF Some True so mc rest] "1.prems" by simp
      with memcpy_blk_length[OF mc] "1.prems" show ?thesis by simp
    qed
  qed
qed

lemmas rdw_eval = rd16_def rd32_def rd64_def rd_bytes_def le_nat_def upt_rec[of _ "numeral _"]

lemmas rd_eval = rd16_def rd32_def rd64_def rd_bytes_def le_nat_def cells_def
  upt_rec[of _ "numeral _"]

lemma vk_inline8_name_len: "rd16 vk_inline8 6 = Some 0" by (simp add: rd_eval vk_inline8_def)
lemma vk_inline8_size: "rd32 vk_inline8 8 = Some 0x80000008" by (simp add: rd_eval vk_inline8_def)
lemma vk_inline8_type: "rd32 vk_inline8 16 = Some 3" by (simp add: rd_eval vk_inline8_def)
lemma vk_inline8_logical: "logical_size 0x80000008 = 8" by (simp add: logical_size_def)
lemma vk_inline8_data: "materialize False vk_inline8 0 = Some (InHive 12)"
  by (simp add: materialize_def vk_inline8_size)
lemma slash_put: "pb_put (\<lambda>_. 0) 0 0x2F = Some ((\<lambda>_. 0)(0 := 0x2F))" by (simp add: pb_put_def path_size_def)
lemma at_puts: "pb_puts ((\<lambda>_. 0)(0 := 0x2F)) (Suc 0) [0x40, 0] = Some ((\<lambda>_. 0)(0 := 0x2F, Suc 0 := 0x40, 2 := 0))"
  by (simp add: pb_put_def path_size_def numeral_2_eq_2)
lemma cstr_from_upto:
  "k \<le> n \<Longrightarrow> n < path_size \<Longrightarrow> buf n = 0 \<Longrightarrow> (\<And>i. k \<le> i \<Longrightarrow> i < n \<Longrightarrow> buf i \<noteq> 0) \<Longrightarrow>
   cstr_from buf k = Some (map (\<lambda>i. char_of_byte (buf i)) [k..<n])"
proof (induction "n - k" arbitrary: k)
  case 0
  then have "k = n" by simp
  with 0 show ?case by (simp add: cstr_from.simps[of buf n])
next
  case (Suc d)
  then have lt: "k < n" by simp
  have nz: "buf k \<noteq> 0" using Suc.prems(4)[of k] lt by simp
  have "cstr_from buf (Suc k) = Some (map (\<lambda>i. char_of_byte (buf i)) [Suc k..<n])"
    using Suc.hyps(1)[of "Suc k"] Suc.hyps(2) Suc.prems lt by simp
  then show ?case
    using lt nz Suc.prems(2) by (simp add: cstr_from.simps[of buf k] upt_conv_Cons)
qed

lemma char_slash_at: "char_of_byte 0x2F = CHR ''/''" "char_of_byte 0x40 = CHR ''@''"
  unfolding char_of_byte_def by (simp_all, simp_all add: char_eval)

lemma cstr_slash_at: "cstr_from ((\<lambda>_. 0)(0 := 0x2F, Suc 0 := 0x40, 2 := 0)) 0 = Some ''/@''"
proof -
  have "cstr_from ((\<lambda>_. 0)(0 := 0x2F, Suc 0 := 0x40, 2 := 0)) 0
      = Some (map (\<lambda>i. char_of_byte (((\<lambda>_. 0)(0 := 0x2F, Suc 0 := 0x40, 2 := 0)) i)) [0..<2])"
    by (rule cstr_from_upto) (auto simp: path_size_def)
  then show ?thesis by (simp add: upt_rec[of _ "numeral _"] char_slash_at)
qed

lemma vk_inline8_view: "view vk_inline8 (InHive 12) = (\<lambda>i. vk_inline8 (12 + i))" by (simp add: view_def)

lemma vk_inline8_bintext: "bin_text (\<lambda>i. vk_inline8 (12 + i)) 3 8 = Some 0"
  by (simp add: bin_text_def text8_count_def count8.simps printable8_def rd_eval vk_inline8_def reg_types)

lemma vk_inline8_branch: "select_branch False 3 8 0 (\<lambda>i. vk_inline8 (12 + i)) = Some HexBytes"
  by (simp add: select_branch_def select_tail_def is_filetime_def rd_eval vk_inline8_def reg_types)

lemma vk_inline8_hex: "hex_loop (\<lambda>i. vk_inline8 (12 + i)) 0 8 = Some ''78,56,34,12,03,00,00,00''"
  by (simp add: hex_loop.simps rd_eval vk_inline8_def fmt_0X_2 hexdigit_def)

lemma mask31: "(0x7fffffff :: 32 word) = mask 31" by (simp add: mask_eq_exp_minus_1)

lemma logical_size_take_bit: "logical_size vsize = uint (take_bit 31 vsize)"
proof -
  have "sint (take_bit 31 vsize) = signed_take_bit 31 (uint (take_bit 31 vsize))"
    by (simp add: sint_uint)
  also have "\<dots> = signed_take_bit 31 (take_bit 31 (uint vsize))"
    by (simp add: unsigned_take_bit_eq)
  also have "\<dots> = take_bit 31 (take_bit 31 (uint vsize))"
    by (rule signed_take_bit_eq_if_positive) (simp add: bit_take_bit_iff)
  also have "\<dots> = uint (take_bit 31 vsize)"
    by (simp add: unsigned_take_bit_eq)
  finally show ?thesis by (simp add: logical_size_def mask31 take_bit_eq_mask)
qed

lemma logical_size_range: "0 \<le> logical_size vsize \<and> logical_size vsize < 2147483648"
proof -
  have "take_bit 31 (uint vsize) < 2 ^ 31" by (rule take_bit_int_less_exp)
  then show ?thesis by (simp add: logical_size_take_bit unsigned_take_bit_eq)
qed

lemma ceil_bounds:
  "0 < S \<Longrightarrow> n = nat ((S + 16343) div 16344) \<Longrightarrow> 16344 * (int n - 1) < S \<and> S \<le> 16344 * int n"
  by auto

lemma rd_bytes_nth:
  "rd_bytes m a n = Some bs \<Longrightarrow> j < n \<Longrightarrow> m (a + int j) = Some (bs ! j)"
proof (induction n arbitrary: a bs j)
  case 0
  then show ?case by simp
next
  case (Suc n)
  from Suc.prems(1) obtain b bs' where bs: "bs = b # bs'" and mb: "m a = Some b"
    and rest: "rd_bytes m (a + 1) n = Some bs'"
    by (auto simp: rd_bytes_Some_Cons)
  show ?case
  proof (cases j)
    case 0
    with bs mb show ?thesis by simp
  next
    case (Suc j')
    with Suc.prems(2) have "j' < n" by simp
    from Suc.IH[OF rest this] bs Suc show ?thesis by (simp add: add.assoc)
  qed
qed

lemma fmt_0X_2_byte: "fmt_0X 2 (unat (b :: byte)) = hex2 b"
proof -
  have "unat b < 256" using unsigned_less[of b, where ?'a = nat] by simp
  then show ?thesis by (simp add: fmt_0X_2 hex2_def)
qed

lemma hex_csv_Cons: "hex_csv (b # r) = hex2 b @ (if r = [] then [] else '','' @ hex_csv r)"
  by (cases r) simp_all

lemma hex_loop_csv:
  "0 \<le> i \<Longrightarrow> rd_bytes d i (nat (n - i)) = Some bs \<Longrightarrow>
   hex_loop d i n = Some ((if i \<noteq> 0 \<and> bs \<noteq> [] then '','' else []) @ hex_csv bs)"
proof (induction bs arbitrary: i)
  case Nil
  then have "nat (n - i) = 0" using rd_bytes_length by fastforce
  then have "\<not> i < n" by simp
  then show ?case by (simp add: hex_loop.simps[of d i n])
next
  case (Cons b r)
  have n: "nat (n - i) = Suc (nat (n - (i + 1)))" and lt: "i < n"
    using rd_bytes_length[OF Cons.prems(2)] by simp_all
  from Cons.prems(2) have mb: "d i = Some b" and rest: "rd_bytes d (i + 1) (nat (n - (i + 1))) = Some r"
    unfolding n by (auto simp: rd_bytes_Some_Cons)
  have i1: "0 \<le> i + 1" "i + 1 \<noteq> 0" using Cons.prems(1) by simp_all
  have "hex_loop d (i + 1) n = Some ((if r \<noteq> [] then '','' else []) @ hex_csv r)"
    using Cons.IH[OF i1(1) rest] i1(2) by simp
  then show ?case
    using lt mb by (simp add: hex_loop.simps[of d i n] fmt_0X_2_byte hex_csv_Cons)
qed

lemma count8_Some:
  "(\<And>j. i \<le> j \<Longrightarrow> j < n \<Longrightarrow> d j \<noteq> None) \<Longrightarrow>
   \<exists>r. count8 d i n a = Some r \<and> a \<le> r \<and> r \<le> a + max 0 (n - i)"
proof (induction d i n a rule: count8.induct)
  case (1 d i n a)
  show ?case
  proof (cases "i < n")
    case False
    then show ?thesis by (simp add: count8.simps[of d i n a])
  next
    case True
    then obtain b where b: "d i = Some b" using "1.prems"[of i] by auto
    have "\<exists>r. count8 d (i + 1) n (if printable8 b then a + 1 else a) = Some r \<and>
        (if printable8 b then a + 1 else a) \<le> r \<and>
        r \<le> (if printable8 b then a + 1 else a) + max 0 (n - (i + 1))"
      by (rule "1.IH"[OF True b]) (use "1.prems" in auto)
    then show ?thesis
      using True b by (auto simp: count8.simps[of d i n a] split: if_splits)
  qed
qed

lemma count16_Some:
  "(\<And>j. i \<le> j \<Longrightarrow> j < n \<Longrightarrow> rd16 d (2 * j) \<noteq> None) \<Longrightarrow>
   \<exists>r. count16 d i n a = Some r \<and> a \<le> r \<and> r \<le> a + max 0 (n - i)"
proof (induction d i n a rule: count16.induct)
  case (1 d i n a)
  show ?case
  proof (cases "i < n")
    case False
    then show ?thesis by (simp add: count16.simps[of d i n a])
  next
    case True
    then obtain u where u: "rd16 d (2 * i) = Some u" using "1.prems"[of i] by auto
    have "\<exists>r. count16 d (i + 1) n (if printable16 u then a + 1 else a) = Some r \<and>
        (if printable16 u then a + 1 else a) \<le> r \<and>
        r \<le> (if printable16 u then a + 1 else a) + max 0 (n - (i + 1))"
      by (rule "1.IH"[OF True u]) (use "1.prems" in auto)
    then show ?thesis
      using True u by (auto simp: count16.simps[of d i n a] split: if_splits)
  qed
qed

lemma bin_text_8:
  assumes rd: "rd_bytes d 0 8 = Some bs"
  shows "\<exists>bt. bin_text d type 8 = Some bt"
proof -
  have byte: "\<And>j. 0 \<le> j \<Longrightarrow> j < 8 \<Longrightarrow> d j \<noteq> None"
  proof -
    fix j :: int assume "0 \<le> j" "j < 8"
    then have "nat j < 8" by simp
    from rd_bytes_nth[OF rd this] \<open>0 \<le> j\<close> show "d j \<noteq> None" by simp
  qed
  have unit: "\<And>j. 0 \<le> j \<Longrightarrow> j < 4 \<Longrightarrow> rd16 d (2 * j) \<noteq> None"
  proof -
    fix j :: int assume j: "0 \<le> j" "j < 4"
    then have "d (2 * j) \<noteq> None" "d (2 * j + 1) \<noteq> None" using byte by simp_all
    then show "rd16 d (2 * j) \<noteq> None" by (auto simp: rd16_def)
  qed
  obtain d1 where d1: "d 1 = Some d1" using byte[of 1] by auto
  obtain d3 where d3: "d 3 = Some d3" using byte[of 3] by auto
  obtain b0 where b0: "d 0 = Some b0" using byte[of 0] by auto
  obtain u0 where u0: "rd16 d 0 = Some u0" using unit[of 0] by auto
  obtain u1 where u1: "rd16 d 2 = Some u1" using unit[of 1] by auto
  have t4: "tdiv 8 2 = 4" by (simp add: tdiv_def)
  obtain r8 where r8: "count8 d 2 8 2 = Some r8" "r8 \<le> 8"
    using count8_Some[of 2 8 d 2] byte by auto
  obtain r16 where r16: "count16 d 2 4 2 = Some r16" "r16 \<le> 4"
    using count16_Some[of 2 4 d 2] unit by auto
  have t8: "\<exists>a mn. text8_count d 8 = Some (a, mn) \<and> a \<le> 8 \<and> mn \<le> 8"
    using b0 d1 r8 by (auto simp: text8_count_def)
  have t16: "\<exists>a mn. text16_count d 8 = Some (a, mn) \<and> a \<le> 8 \<and> mn \<le> 8"
    using u0 u1 r16 by (auto simp: text16_count_def t4)
  from t8 t16 obtain a mn where
    am: "(if d1 = 0 \<and> d3 = 0 then text16_count d 8 else text8_count d 8) = Some (a, mn)"
      "a \<le> 8" "mn \<le> 8" by (cases "d1 = 0 \<and> d3 = 0") auto
  show ?thesis
  proof (cases "(type = REG_BINARY \<or> type = REG_NONE)")
    case False
    then show ?thesis by (simp add: bin_text_def)
  next
    case True
    have b: "a * 8 \<le> 2147483647" "8 * mn \<le> 2147483647" using am(2,3) by simp_all
    show ?thesis
    proof (cases "d1 = 0")
      case z: True
      show ?thesis
      proof (cases "d3 = 0")
        case True
        with z am(1) have "text16_count d 8 = Some (a, mn)" by simp
        then show ?thesis
          using \<open>type = REG_BINARY \<or> type = REG_NONE\<close> b
          by (simp add: bin_text_def d1 d3 z True)
      next
        case False
        with am(1) have "text8_count d 8 = Some (a, mn)" by simp
        then show ?thesis
          using \<open>type = REG_BINARY \<or> type = REG_NONE\<close> b
          by (simp add: bin_text_def d1 d3 z False)
      qed
    next
      case False
      with am(1) have "text8_count d 8 = Some (a, mn)" by simp
      then show ?thesis
        using \<open>type = REG_BINARY \<or> type = REG_NONE\<close> b
        by (simp add: bin_text_def d1 False)
    qed
  qed
qed

lemma select_tail_not_filetime: "select_tail type sz bt \<noteq> Filetime"
  by (simp add: select_tail_def)

lemma filetime_uint:
  "is_filetime v \<longleftrightarrow> 126227808000000000 \<le> uint v \<and> uint v < 157784544000000000"
proof (cases "uint v < 2 ^ 63")
  case True
  have "sint v = signed_take_bit 63 (uint v)" by (simp add: sint_uint)
  also have "\<dots> = uint v"
  proof (rule signed_take_bit_int_eq_self)
    have "0 \<le> uint v" by simp
    moreover have "- (2 ^ 63) \<le> (0::int)" by simp
    ultimately show "- (2 ^ 63) \<le> uint v" by (rule order_trans[rotated])
    show "uint v < 2 ^ 63" by (rule True)
  qed
  finally show ?thesis by (simp add: is_filetime_def)
next
  case False
  have "sint v = signed_take_bit 63 (uint v)" by (simp add: sint_uint)
  also have "\<dots> \<le> uint v - 2 ^ Suc 63"
    by (rule signed_take_bit_int_less_eq) (use False in simp)
  also have "\<dots> < 0" using uint_lt2p[of v] by simp
  finally have "sint v < 0" .
  with False show ?thesis by (simp add: is_filetime_def)
qed

lemma dec_nat_lt10: "n < 10 \<Longrightarrow> dec_nat n = [hexdigit n]"
  by (simp add: dec_nat.simps[of n])

lemma dec_nat_ge10: "10 \<le> n \<Longrightarrow> dec_nat n = dec_nat (n div 10) @ [hexdigit (n mod 10)]"
  by (simp add: dec_nat.simps[of n])

lemma rd_units_nth:
  "rd_units m a n = Some us \<Longrightarrow> j < n \<Longrightarrow> rd16 m (a + 2 * int j) = Some (us ! j)"
proof (induction n arbitrary: a us j)
  case 0
  then show ?case by simp
next
  case (Suc n)
  from Suc.prems(1) obtain u us' where us: "us = u # us'" and mu: "rd16 m a = Some u"
    and rest: "rd_units m (a + 2) n = Some us'"
    by (auto simp: rd_units_Some_Cons)
  show ?case
  proof (cases j)
    case 0
    with us mu show ?thesis by simp
  next
    case (Suc j')
    with Suc.prems(2) have "j' < n" by simp
    from Suc.IH[OF rest this] us Suc show ?thesis by (simp add: algebra_simps)
  qed
qed

lemma rd_units_take:
  "rd_units m a n = Some us \<Longrightarrow> k \<le> n \<Longrightarrow> rd_units m a k = Some (take k us)"
proof (induction n arbitrary: a us k)
  case 0
  then show ?case by (simp add: rd_units_0)
next
  case (Suc n)
  from Suc.prems(1) obtain u us' where us: "us = u # us'" and mu: "rd16 m a = Some u"
    and rest: "rd_units m (a + 2) n = Some us'"
    by (auto simp: rd_units_Some_Cons)
  show ?case
  proof (cases k)
    case 0
    then show ?thesis by (simp add: rd_units_0)
  next
    case (Suc k')
    with Suc.prems(2) have "k' \<le> n" by simp
    from Suc.IH[OF rest this] us mu Suc show ?thesis by (simp add: rd_units_Suc)
  qed
qed

lemma strip_zeros_snoc:
  "strip_zeros (xs @ [u]) = (if u = 0 then strip_zeros xs else xs @ [u])"
  by (simp add: strip_zeros_def)

lemma strip_zeros_prefix: "take (length (strip_zeros us)) us = strip_zeros us"
proof -
  have "strip_zeros us @ rev (takeWhile (\<lambda>u. u = 0) (rev us))
      = rev (takeWhile (\<lambda>u. u = 0) (rev us) @ dropWhile (\<lambda>u. u = 0) (rev us))"
    by (simp only: rev_append strip_zeros_def)
  also have "\<dots> = rev (rev us)" by (simp only: takeWhile_dropWhile_id)
  finally have "us = strip_zeros us @ rev (takeWhile (\<lambda>u. u = 0) (rev us))" by simp
  then show ?thesis by (metis append_eq_conv_conj)
qed

lemma strip_zeros_length: "length (strip_zeros us) \<le> length us"
  by (simp add: strip_zeros_def length_dropWhile_le[of _ "rev us", simplified])

lemma strip_nul_take:
  "rd_units d 0 n = Some us \<Longrightarrow> k \<le> n \<Longrightarrow>
   strip_nul d (int k) = Some (int (length (strip_zeros (take k us))))"
proof (induction k)
  case 0
  show ?case by (simp add: strip_nul.simps[of d 0] strip_zeros_def)
next
  case (Suc k)
  then have lt: "k < n" by simp
  have len: "length us = n" using Suc.prems(1) by (rule rd_units_length)
  have rd: "rd16 d (2 * (int (Suc k) - 1)) = Some (us ! k)"
    using rd_units_nth[OF Suc.prems(1) lt] by simp
  have tk: "take (Suc k) us = take k us @ [us ! k]"
    using lt len by (simp add: take_Suc_conv_app_nth)
  have IH: "strip_nul d (int k) = Some (int (length (strip_zeros (take k us))))"
    using Suc by simp
  have m1: "int (Suc k) - 1 = int k" by simp
  show ?case
  proof (cases "us ! k = 0")
    case True
    with rd IH show ?thesis
      unfolding tk strip_zeros_snoc
      by (simp add: strip_nul.simps[of d "int (Suc k)"] m1 del: of_nat_Suc)
  next
    case False
    have "length (take k us) = k" using lt len by simp
    with False rd show ?thesis
      unfolding tk strip_zeros_snoc
      by (simp add: strip_nul.simps[of d "int (Suc k)"] del: of_nat_Suc)
  qed
qed

lemma strip_nul_spec:
  "rd_units d 0 n = Some us \<Longrightarrow> strip_nul d (int n) = Some (int (length (strip_zeros us)))"
  using strip_nul_take[of d n us n] rd_units_length[of d 0 n us] by simp

lemma printable16_iff: "printable16 u \<longleftrightarrow> 32 \<le> unat u \<and> unat u \<le> 126"
  by (auto simp: printable16_def)

lemma esc16_spec: "\<not> printable16 u \<Longrightarrow> esc16 u = spec_name_unit u"
  using piece16[of u] by simp

lemma str_loop_step:
  assumes "i < n" and "rd16 d (2 * i) = Some u"
    and "str_loop d alls bt type (i + 1) n = Some rest"
    and "i + 1 < n \<Longrightarrow> rd16 d (2 * (i + 1)) = Some v"
  shows "str_loop d alls bt type i n = Some (
     if printable16 u then char_of (unat u) # rest
     else if u = 0 \<and> type = REG_MULTI_SZ \<and> i + 1 < n \<and> v \<noteq> 0 then ''<>'' @ rest
     else if u = 0 \<and> \<not> alls \<and> bt = 0 then '' <...>''
     else esc16 u @ rest)"
proof (cases "u = 0 \<and> type = REG_MULTI_SZ \<and> i + 1 < n")
  case True
  then have "rd16 d (2 * (i + 1)) = Some v" using assms(4) by simp
  with True assms(1-3) show ?thesis
    by (subst str_loop.simps) (simp split: if_splits)
next
  case False
  with assms(1-3) show ?thesis
    by (subst str_loop.simps) (auto split: if_splits)
qed

lemma str_loop_units:
  "rd_units d (2 * i) (length xs) = Some xs \<Longrightarrow> n = i + int (length xs) \<Longrightarrow>
   str_loop d alls bt type i n = Some (render_units alls bt type xs)"
proof (induction xs arbitrary: i)
  case Nil
  then show ?case by (simp add: str_loop.simps[of d alls bt type i i])
next
  case (Cons u r)
  have lt: "i < n" using Cons.prems(2) by simp
  from Cons.prems(1) have mu: "rd16 d (2 * i) = Some u"
    and rest: "rd_units d (2 * (i + 1)) (length r) = Some r"
    by (auto simp: rd_units_Some_Cons algebra_simps)
  have n': "n = (i + 1) + int (length r)" using Cons.prems(2) by simp
  have IH: "str_loop d alls bt type (i + 1) n = Some (render_units alls bt type r)"
    by (rule Cons.IH[OF rest n'])
  have more: "i + 1 < n \<longleftrightarrow> r \<noteq> []" using n' by (cases r) simp_all
  have nxt: "i + 1 < n \<Longrightarrow> rd16 d (2 * (i + 1)) = Some (hd r)"
    using rest more by (cases r) (auto simp: rd_units_Some_Cons)
  have "str_loop d alls bt type i n = Some (
     if printable16 u then char_of (unat u) # render_units alls bt type r
     else if u = 0 \<and> type = REG_MULTI_SZ \<and> i + 1 < n \<and> hd r \<noteq> 0
       then ''<>'' @ render_units alls bt type r
     else if u = 0 \<and> \<not> alls \<and> bt = 0 then '' <...>''
     else esc16 u @ render_units alls bt type r)"
    by (rule str_loop_step[OF lt mu IH nxt])
  also have "\<dots> = Some (render_units alls bt type (u # r))"
    using esc16_spec[of u] by (simp add: more printable16_iff)
  finally show ?case .
qed

lemma tdiv_2_nonneg: "0 \<le> sz \<Longrightarrow> tdiv sz 2 = int (nat (tdiv sz 2))"
  by (simp add: tdiv_def sgn_if)

lemma render_string_type:
  assumes ty: "type = REG_SZ \<or> type = REG_MULTI_SZ \<or> type = REG_EXPAND_SZ \<or> type = REG_LINK"
    and rd: "rd_units d 0 (nat (tdiv sz 2)) = Some us" and nn: "0 \<le> sz"
  shows "render lt_fun alls props type sz d = Some (render_units alls 0 type (strip_zeros us))"
proof -
  have bt: "bin_text d type sz = Some 0"
    using ty by (auto simp: bin_text_def reg_types)
  have sel: "select_branch props type sz 0 d = Some Str"
    using ty by (auto simp: select_branch_def select_tail_def reg_types devprop_types)
  have sn: "strip_nul d (tdiv sz 2) = Some (int (length (strip_zeros us)))"
    using strip_nul_spec[OF rd] tdiv_2_nonneg[OF nn] by simp
  have len: "length us = nat (tdiv sz 2)" using rd by (rule rd_units_length)
  have "rd_units d 0 (length (strip_zeros us)) = Some (take (length (strip_zeros us)) us)"
    by (rule rd_units_take[OF rd]) (use strip_zeros_length[of us] len in simp)
  then have "rd_units d (2 * 0) (length (strip_zeros us)) = Some (strip_zeros us)"
    by (simp add: strip_zeros_prefix)
  then have "str_loop d alls 0 type 0 (int (length (strip_zeros us)))
      = Some (render_units alls 0 type (strip_zeros us))"
    by (rule str_loop_units) simp
  with bt sel sn show ?thesis by (simp add: render_def render_branch_def)
qed

lemma render_branch_heuristic:
  assumes rd: "rd_units d 0 (nat (tdiv sz 2)) = Some us" and nn: "0 \<le> sz"
  shows "render_branch lt_fun alls type sz 16 d Str = Some (render_units alls 16 type us)"
proof -
  have len: "length us = nat (tdiv sz 2)" using rd by (rule rd_units_length)
  have "rd_units d (2 * 0) (length us) = Some us" using rd len by simp
  then have "str_loop d alls 16 type 0 (int (length us)) = Some (render_units alls 16 type us)"
    by (rule str_loop_units) simp
  then show ?thesis using len tdiv_2_nonneg[OF nn] by (simp add: render_branch_def)
qed

lemma multi_ab_units: "rd_units multi_ab 0 (nat (tdiv 10 2)) = Some [0x41, 0, 0x42, 0, 0]"
proof -
  have "nat (tdiv 10 2) = 5" by (simp add: tdiv_def)
  then show ?thesis
    by (simp add: rd_units_def rd16_def le_nat_def cells_def multi_ab_def upt_rec[of _ "numeral _"])
qed

lemma sz_a0_units: "rd_units sz_a0 0 (nat (tdiv 4 2)) = Some [0x41, 0]"
proof -
  have "nat (tdiv 4 2) = 2" by (simp add: tdiv_def)
  then show ?thesis
    by (simp add: rd_units_def rd16_def le_nat_def cells_def sz_a0_def upt_rec[of _ "numeral _"])
qed

lemma render_units_ab:
  "render_units alls 0 REG_MULTI_SZ (strip_zeros [0x41, 0, 0x42, 0, 0]) = ''A<>B''"
  by (simp add: strip_zeros_def char_eval)

lemma render_units_a: "render_units alls 0 REG_SZ (strip_zeros [0x41, 0]) = ''A''"
  by (simp add: strip_zeros_def char_eval)

lemma keeps_refl: "keeps path s s"
  by (simp add: keeps_def)

lemma keeps_trans: "keeps path s s1 \<Longrightarrow> keeps path s1 s2 \<Longrightarrow> keeps path s s2"
  by (simp add: keeps_def)

lemma keeps_mono: "keeps path s s' \<Longrightarrow> p \<le> path \<Longrightarrow> keeps p s s'"
  by (simp add: keeps_def)

lemma pb_put_frame: "pb_put buf i c = Some b' \<Longrightarrow> j < i \<Longrightarrow> b' j = buf j"
  by (auto simp: pb_put_def split: if_splits)

lemma pb_puts_frame: "pb_puts buf i cs = Some b' \<Longrightarrow> j < i \<Longrightarrow> b' j = buf j"
  by (auto simp: pb_puts_poke poke_def split: if_splits)

lemma sprintf_at_frame: "sprintf_at buf i t = Some b' \<Longrightarrow> j < i \<Longrightarrow> b' j = buf j"
  unfolding sprintf_at_def by (rule pb_puts_frame)

lemma make_name_comp_frame:
  "make_name_comp m buf out uc i len = Some (b', out') \<Longrightarrow>
   out \<le> out' \<and> (\<forall>j<out. b' j = buf j)"
proof (induction m buf out uc i len rule: make_name_comp.induct)
  case (1 m buf out uc i len)
  show ?case
  proof (cases "i < len")
    case False
    with "1.prems" show ?thesis by (simp add: make_name_comp.simps[of m buf out uc i len])
  next
    case True
    from "1.prems" True obtain c where c: "m uc = Some c"
      by (auto simp: make_name_comp.simps[of m buf out uc i len] split: option.splits)
    show ?thesis
    proof (cases "printable8 c")
      case p: True
      from "1.prems" True c p obtain b1 where b1: "pb_put buf out c = Some b1"
        and r: "make_name_comp m b1 (Suc out) (uc + 1) (i + 1) len = Some (b', out')"
        by (auto simp: make_name_comp.simps[of m buf out uc i len] split: option.splits)
      from "1.IH"(1)[OF True c p b1 r] pb_put_frame[OF b1] show ?thesis by auto
    next
      case p: False
      from "1.prems" True c p obtain b1 where b1: "sprintf_at buf out (esc8 c) = Some b1"
        and r: "make_name_comp m b1 (out + length (esc8 c)) (uc + 1) (i + 1) len = Some (b', out')"
        by (auto simp: make_name_comp.simps[of m buf out uc i len] split: option.splits)
      from "1.IH"(2)[OF True c p b1 r] sprintf_at_frame[OF b1] show ?thesis by auto
    qed
  qed
qed

lemma make_name_wide_frame:
  "make_name_wide m buf out us i len = Some (b', out') \<Longrightarrow>
   out \<le> out' \<and> (\<forall>j<out. b' j = buf j)"
proof (induction m buf out us i len rule: make_name_wide.induct)
  case (1 m buf out us i len)
  show ?case
  proof (cases "i < tdiv len 2")
    case False
    with "1.prems" show ?thesis by (simp add: make_name_wide.simps[of m buf out us i len])
  next
    case True
    from "1.prems" True obtain c where c: "rd16 m us = Some c"
      by (auto simp: make_name_wide.simps[of m buf out us i len] split: option.splits)
    show ?thesis
    proof (cases "printable16 c")
      case p: True
      from "1.prems" True c p obtain b1 where b1: "pb_put buf out (ucast c) = Some b1"
        and r: "make_name_wide m b1 (Suc out) (us + 2) (i + 1) len = Some (b', out')"
        by (auto simp: make_name_wide.simps[of m buf out us i len] split: option.splits)
      from "1.IH"(1)[OF True c p b1 r] pb_put_frame[OF b1] show ?thesis by auto
    next
      case p: False
      from "1.prems" True c p obtain b1 where b1: "sprintf_at buf out (esc16 c) = Some b1"
        and r: "make_name_wide m b1 (out + length (esc16 c)) (us + 2) (i + 1) len = Some (b', out')"
        by (auto simp: make_name_wide.simps[of m buf out us i len] split: option.splits)
      from "1.IH"(2)[OF True c p b1 r] sprintf_at_frame[OF b1] show ?thesis by auto
    qed
  qed
qed

lemma make_name_frame:
  "make_name m buf out inp len c = Some (b', out') \<Longrightarrow> out \<le> out' \<and> (\<forall>j<out. b' j = buf j)"
proof -
  assume a: "make_name m buf out inp len c = Some (b', out')"
  then obtain b1 where l: "(if c then make_name_comp m buf out inp 0 len
            else make_name_wide m buf out inp 0 len) = Some (b1, out')"
    and p: "pb_put b1 out' 0 = Some b'"
    by (auto simp: make_name_def split: option.splits)
  from l have f: "out \<le> out' \<and> (\<forall>j<out. b1 j = buf j)"
    using make_name_comp_frame[of m buf out inp 0 len b1 out']
      make_name_wide_frame[of m buf out inp 0 len b1 out'] by (cases c) simp_all
  with pb_put_frame[OF p] show ?thesis by auto
qed

lemma value_name_frame: "value_name m buf path val = Some b' \<Longrightarrow> j < path \<Longrightarrow> b' j = buf j"
proof -
  assume a: "value_name m buf path val = Some b'" and j: "j < path"
  from a obtain buf1 nl where b1: "pb_put buf path 0x2F = Some buf1"
    and r: "(if nl = (0 :: 16 word) then pb_puts buf1 (Suc path) [0x40, 0]
             else rd16 m (val + 20) \<bind> (\<lambda>flags.
                  make_name m buf1 (Suc path) (val + 24) (sint nl) (flags AND 0x01 \<noteq> 0) \<bind>
                  (\<lambda>r. Some (fst r)))) = Some b'"
    by (auto simp: value_name_def Option.bind_eq_Some_conv)
  have "b' j = buf1 j"
  proof (cases "nl = 0")
    case True
    with r have "pb_puts buf1 (Suc path) [0x40, 0] = Some b'" by simp
    from pb_puts_frame[OF this] j show ?thesis by simp
  next
    case False
    with r obtain fl out' where "make_name m buf1 (Suc path) (val + 24) (sint nl) fl = Some (b', out')"
      by (auto simp: Option.bind_eq_Some_conv)
    from make_name_frame[OF this] j show ?thesis by simp
  qed
  with pb_put_frame[OF b1 j] show ?thesis by simp
qed

lemma value_line_keeps: "value_line e s path key val = Some s' \<Longrightarrow> keeps path s s'"
proof -
  assume a: "value_line e s path key val = Some s'"
  then obtain buf2 ln where b2: "value_name (hive e) (pathbuf s) path val = Some buf2"
    and s': "s' = s\<lparr>pathbuf := buf2, stdout := ln\<rparr>"
    by (auto simp: value_line_def Option.bind_eq_Some_conv)
  from value_name_frame[OF b2] s' show ?thesis by (simp add: keeps_def)
qed

lemma val_loop_keeps: "val_loop e key vl path i s = Some s' \<Longrightarrow> keeps path s s'"
proof (induction e key vl path i s rule: val_loop.induct)
  case (1 e key vl path i s)
  show ?case
  proof (cases "rd32 (hive e) (key + 40)")
    case None
    with "1.prems" show ?thesis by (simp add: val_loop.simps[of e key vl path i s])
  next
    case (Some vc)
    show ?thesis
    proof (cases "i < sint vc")
      case False
      with Some "1.prems" show ?thesis
        by (simp add: val_loop.simps[of e key vl path i s] keeps_refl)
    next
      case True
      from "1.prems" Some True obtain vo s1 where
        vo: "rd32 (hive e) (vl + 4 + 4 * i) = Some vo"
        and v1: "value_line e s path key (sint vo) = Some s1"
        and r: "val_loop e key vl path (i + 1) s1 = Some s'"
        by (auto simp: val_loop.simps[of e key vl path i s] split: option.splits)
      from "1.IH"[OF Some True vo v1 r] value_line_keeps[OF v1] show ?thesis
        by (rule keeps_trans[rotated])
    qed
  qed
qed

lemma key_line_keeps: "key_line e key s = Some s' \<Longrightarrow> keeps path s s'"
  by (auto simp: key_line_def keeps_def Option.bind_eq_Some_conv split: if_splits)

lemma only_key_line_keeps: "only_key_line e key s = Some s' \<Longrightarrow> keeps path s s'"
  by (auto simp: only_key_line_def keeps_def Option.bind_eq_Some_conv)

lemma leaf_loop_keeps:
  "leaf_loop rec m item ii i s = Some s' \<Longrightarrow>
   (\<And>s k s'. rec s k = Some s' \<Longrightarrow> keeps path s s') \<Longrightarrow> keeps path s s'"
proof (induction rec m item ii i s rule: leaf_loop.induct)
  case (1 rc m item ii i s)
  show ?case
  proof (cases "rd16 m (item + 6)")
    case None
    with "1.prems" show ?thesis by (simp add: leaf_loop.simps[of rc m item ii i s])
  next
    case (Some cnt)
    show ?thesis
    proof (cases "i < sint cnt")
      case False
      with Some "1.prems" show ?thesis
        by (simp add: leaf_loop.simps[of rc m item ii i s] keeps_refl)
    next
      case True
      from "1.prems"(1) Some True obtain ko s1 where
        ko: "rd32 m (item + 8 + 4 * (i * ii)) = Some ko"
        and v1: "rc s (sint ko) = Some s1"
        and r: "leaf_loop rc m item ii (i + 1) s1 = Some s'"
        by (auto simp: leaf_loop.simps[of rc m item ii i s] split: option.splits)
      from "1.IH"[OF Some True ko v1 r "1.prems"(2)] "1.prems"(2)[OF v1] show ?thesis
        by (rule keeps_trans[rotated])
    qed
  qed
qed


lemma ri_loop_keeps:
  "ri_loop rec m item i s = Some s' \<Longrightarrow>
   (\<And>s k s'. rec s k = Some s' \<Longrightarrow> keeps path s s') \<Longrightarrow> keeps path s s'"
proof (induction rec m item i s rule: ri_loop.induct)
  case (1 rc m item i s)
  show ?case
  proof (cases "rd16 m (item + 6)")
    case None
    with "1.prems" show ?thesis by (simp add: ri_loop.simps[of rc m item i s])
  next
    case (Some cnt)
    show ?thesis
    proof (cases "i < sint cnt")
      case False
      with Some "1.prems" show ?thesis
        by (simp add: ri_loop.simps[of rc m item i s] keeps_refl)
    next
      case True
      from "1.prems"(1) Some True obtain so t1 s1 where
        so: "index_entry m item i = Some so"
        and t1: "m (sint so + 5) = Some t1"
        and v1: "leaf_loop rc m (sint so) (stride t1) 0 s = Some s1"
        and r: "ri_loop rc m item (i + 1) s1 = Some s'"
        by (auto simp: ri_loop.simps[of rc m item i s] split: option.splits)
      from "1.IH"[OF Some True so t1 v1 r "1.prems"(2)] leaf_loop_keeps[OF v1 "1.prems"(2)]
      show ?thesis by (rule keeps_trans[rotated])
    qed
  qed
qed

lemma children_keeps:
  assumes "children rec m key ek s = Some (s', ek')"
    and rec: "\<And>s k s'. rec s k = Some s' \<Longrightarrow> keeps path s s'"
  shows "keeps path s s'"
proof -
  from assms(1) have "s' = s \<or>
      (\<exists>item t1. leaf_loop rec m item (stride t1) 0 s = Some s') \<or>
      (\<exists>item. ri_loop rec m item 0 s = Some s')"
    by (auto simp: children_def Option.bind_eq_Some_conv split: if_splits)
  then show ?thesis
    using leaf_loop_keeps[of rec m _ _ 0 s s' path] ri_loop_keeps[of rec m _ 0 s s' path] rec
    by (auto simp: keeps_refl)
qed

lemma enter_key_flags:
  assumes "enter_key m key s = Some (s1, lk)"
  shows "(lk = Some Properties \<longleftrightarrow> \<not> properties s \<and> key_named m key ''Properties'') \<and>
         (lk = Some DriverPackages \<longleftrightarrow> \<not> driverpackages s \<and> key_named m key ''DriverPackages'') \<and>
         s1 = s\<lparr>properties := properties s \<or> lk = Some Properties,
               driverpackages := driverpackages s \<or> lk = Some DriverPackages\<rparr>"
proof -
  from assms obtain len where len: "rd16 m (key + 76) = Some len"
    by (auto simp: enter_key_def Option.bind_eq_Some_conv)
  have l10: "length ''Properties'' = 10" and l14: "length ''DriverPackages'' = 14" by simp_all
  consider (ten) "sint len = 10" | (fourteen) "sint len = 14" | (other) "sint len \<noteq> 10" "sint len \<noteq> 14"
    by blast
  then show ?thesis
  proof cases
    case ten
    then have n14: "sint len \<noteq> 14" by simp
    have kd: "\<not> key_named m key ''DriverPackages''"
      using len ten by (simp add: key_named_def)
    show ?thesis
    proof (cases "properties s")
      case True
      with assms len ten n14 kd show ?thesis
        by (auto simp: enter_key_def)
    next
      case False
      with assms len ten n14 obtain nm where nm: "rd_bytes m (key + 80) 10 = Some nm"
        by (auto simp: enter_key_def Option.bind_eq_Some_conv)
      have kp: "key_named m key ''Properties'' \<longleftrightarrow> nm = map byte_of_char ''Properties''"
        using len ten nm unfolding key_named_def l10 by auto
      from assms len ten n14 False nm kd kp show ?thesis
        by (auto simp: enter_key_def simp del: list.map)
    qed
  next
    case fourteen
    then have n10: "sint len \<noteq> 10" by simp
    have kp: "\<not> key_named m key ''Properties''"
      using len fourteen by (simp add: key_named_def)
    show ?thesis
    proof (cases "driverpackages s")
      case True
      with assms len fourteen n10 kp show ?thesis
        by (auto simp: enter_key_def)
    next
      case False
      with assms len fourteen n10 obtain nm where nm: "rd_bytes m (key + 80) 14 = Some nm"
        by (auto simp: enter_key_def Option.bind_eq_Some_conv)
      have kd: "key_named m key ''DriverPackages'' \<longleftrightarrow> nm = map byte_of_char ''DriverPackages''"
        using len fourteen nm unfolding key_named_def l14 by auto
      from assms len fourteen n10 False nm kd kp show ?thesis
        by (auto simp: enter_key_def simp del: list.map)
    qed
  next
    case other
    have "\<not> key_named m key ''Properties''" "\<not> key_named m key ''DriverPackages''"
      using len other by (simp_all add: key_named_def)
    with assms len other show ?thesis
      by (auto simp: enter_key_def)
  qed
qed

lemma key_values_flags:
  assumes "key_values e key p s = Some (s2, ek, lk)"
  shows "(\<forall>j<p. pathbuf s2 j = pathbuf s j) \<and>
         properties s2 = (properties s \<or> lk = Some Properties) \<and>
         driverpackages s2 = (driverpackages s \<or> lk = Some DriverPackages) \<and>
         (lk = Some Properties \<longrightarrow> \<not> properties s \<and> \<not> only_keys e \<and>
             key_named (hive e) key ''Properties'') \<and>
         (lk = Some DriverPackages \<longrightarrow> \<not> driverpackages s \<and> \<not> only_keys e \<and>
             key_named (hive e) key ''DriverPackages'')"
proof (cases "only_keys e")
  case True
  with assms have "only_key_line e key s = Some s2" and "lk = None"
    by (auto simp: key_values_def Option.bind_eq_Some_conv)
  with only_key_line_keeps[of e key s s2 p] show ?thesis by (simp add: keeps_def)
next
  case False
  with assms obtain s1 vl where ek: "enter_key (hive e) key s = Some (s1, lk)"
    and vls: "val_loop e key vl p 0 s1 = Some s2"
    by (auto simp: key_values_def Option.bind_eq_Some_conv)
  from val_loop_keeps[OF vls] enter_key_flags[OF ek] False show ?thesis
    by (auto simp: keeps_def)
qed

lemma leave_flags:
  "properties (leave lk s) = (properties s \<and> lk \<noteq> Some Properties) \<and>
   driverpackages (leave lk s) = (driverpackages s \<and> lk \<noteq> Some DriverPackages) \<and>
   pathbuf (leave lk s) = pathbuf s \<and> stdout (leave lk s) = stdout s"
  by (auto simp: leave_def split: option.splits flag.splits)

lemma walk_keeps: "walk fuel e s path key = Some s' \<Longrightarrow> keeps path s s'"
proof (induction fuel arbitrary: s path key s')
  case 0
  then show ?case by simp
next
  case (Suc fuel)
  from Suc.prems obtain buf1 and fl len :: "16 word" and r v c s3 where
    b1: "pb_put (pathbuf s) path 0x2F = Some buf1"
    and mn: "make_name (hive e) buf1 (Suc path) (key + 80) (sint len) (fl AND 0x20 \<noteq> 0) = Some r"
    and kv: "key_values e key (snd r) (s\<lparr>pathbuf := fst r\<rparr>) = Some v"
    and ch: "children (\<lambda>s' k. walk fuel e s' (snd r) k) (hive e) key (fst (snd v)) (fst v) = Some c"
    and kl: "(if snd c \<and> \<not> only_values e then key_line e key (fst c) else Some (fst c)) = Some s3"
    and s': "s' = leave (snd (snd v)) s3"
    unfolding walk.simps Option.bind_eq_Some_conv by blast
  obtain b2 p where r: "r = (b2, p)" by (cases r)
  obtain s2 ek lk where v: "v = (s2, ek, lk)" by (cases v)
  obtain sc ek' where c: "c = (sc, ek')" by (cases c)
  from make_name_frame[OF mn[unfolded r]] have p: "Suc path \<le> p"
    and f2: "\<forall>j<Suc path. b2 j = buf1 j" by simp_all
  have pre1: "\<forall>j<path. b2 j = pathbuf s j"
    using f2 pb_put_frame[OF b1] by simp
  note kvf = key_values_flags[OF kv[unfolded r v, simplified]]
  have k3: "keeps p s2 sc"
    by (rule children_keeps[OF ch[unfolded r v c, simplified]]) (rule Suc.IH)
  have k4: "keeps p sc s3"
    using kl key_line_keeps[of e key sc s3 p] unfolding c by (auto simp: keeps_refl split: if_splits)
  have k34: "keeps p s2 s3" using k3 k4 by (rule keeps_trans)
  have pathk: "\<forall>j<path. pathbuf s3 j = pathbuf s j"
    using k34 kvf pre1 p by (simp add: keeps_def)
  have fl3: "properties s3 = properties s2" "driverpackages s3 = driverpackages s2"
    using k34 by (simp_all add: keeps_def)
  show ?case
    unfolding s' v keeps_def
    using leave_flags[of lk s3] pathk fl3 kvf by auto
qed

lemma make_name_text:
  assumes "name_text m inp len c = Some t"
  shows "make_name m buf out inp len c =
     (case sprintf_at buf out t of None \<Rightarrow> None | Some b \<Rightarrow> Some (b, out + length t))"
proof (cases c)
  case True
  with assms obtain bs where bs: "rd_bytes m inp (nat len) = Some bs"
    and t: "t = concat (map spec_name_byte bs)"
    by (auto simp: name_text_def)
  from make_name_comp_eq[of m inp len 0 bs buf out] bs True show ?thesis
    unfolding t by (simp add: make_name_def)
next
  case False
  with assms obtain us where us: "rd_units m inp (nat (tdiv len 2)) = Some us"
    and t: "t = concat (map spec_name_unit us)"
    by (auto simp: name_text_def)
  from make_name_wide_eq[of m inp len 0 us buf out] us False show ?thesis
    unfolding t by (simp add: make_name_def)
qed

lemma char_byte_char: "char_of_byte (byte_of_char c) = c"
proof -
  have "(of_char c :: nat) < 256" by simp
  then have "unat (of_nat (of_char c :: nat) :: byte) = of_char c"
    by (simp add: unat_of_nat)
  then have "unat (of_char c :: byte) = of_char c"
    by (simp only: of_nat_of_char)
  then show ?thesis by (simp add: char_of_byte_def byte_of_char_def)
qed

lemma plain_hexdigit: "d < 16 \<Longrightarrow> plain (hexdigit d)"
proof -
  assume "d < 16"
  then have "hexdigit d \<in> set ''0123456789ABCDEF''"
    unfolding hexdigit_def by (intro nth_mem) simp
  moreover have "\<forall>c \<in> set ''0123456789ABCDEF''. plain c"
    by (simp add: plain_def byte_of_char_def)
  ultimately show ?thesis by blast
qed

lemma plain_printable: "32 \<le> unat b \<Longrightarrow> unat b \<le> 126 \<Longrightarrow> plain (char_of_byte b)"
proof -
  assume a: "32 \<le> unat b" "unat b \<le> 126"
  have nz: "byte_of_char (char_of_byte b) \<noteq> 0" using a by (auto simp: byte_char_byte)
  have "char_of_byte b \<noteq> CHR ''\<newline>''"
  proof
    assume "char_of_byte b = CHR ''\<newline>''"
    then have "byte_of_char (char_of_byte b) = byte_of_char CHR ''\<newline>''" by simp
    then have "b = byte_of_char CHR ''\<newline>''" unfolding byte_char_byte .
    then have "b = 10" by (simp add: byte_of_char_def)
    with a show False by simp
  qed
  with nz show ?thesis by (simp add: plain_def)
qed

lemma plain_brackets: "plain CHR ''<''" "plain CHR ''>''" "plain CHR ''/''"
  by (simp_all add: plain_def byte_of_char_def)

lemma plain_spec_name_byte: "c \<in> set (spec_name_byte b) \<Longrightarrow> plain c"
proof -
  have "unat b < 256" using unsigned_less[of b, where ?'a = nat] by simp
  then have "unat b div 16 < 16" "unat b mod 16 < 16" by simp_all
  then show "c \<in> set (spec_name_byte b) \<Longrightarrow> plain c"
    using plain_hexdigit plain_printable[of b] plain_brackets
    by (auto simp: spec_name_byte_def split: if_splits)
qed

lemma plain_spec_name_unit: "c \<in> set (spec_name_unit u) \<Longrightarrow> plain c"
proof -
  assume c: "c \<in> set (spec_name_unit u)"
  have lt: "unat u < 65536" using unsigned_less[of u, where ?'a = nat] by simp
  show ?thesis
  proof (cases "32 \<le> unat u \<and> unat u \<le> 126")
    case True
    then have e: "unat (ucast u :: byte) = unat u"
      by (simp add: unsigned_ucast_eq take_bit_eq_mod)
    with True have "plain (char_of_byte (ucast u))" by (intro plain_printable) simp_all
    moreover have "char_of_byte (ucast u :: byte) = char_of (unat u)"
      unfolding char_of_byte_def e ..
    ultimately show ?thesis using c True by (simp add: spec_name_unit_def)
  next
    case False
    have "unat u div 4096 < 16" "unat u div 256 mod 16 < 16" "unat u div 16 mod 16 < 16"
      "unat u mod 16 < 16" using lt by simp_all
    moreover have "unat u < 256 \<Longrightarrow> unat u div 16 < 16" by simp
    ultimately show ?thesis
      using c False plain_hexdigit plain_brackets
      by (auto simp: spec_name_unit_def split: if_splits)
  qed
qed

lemma name_text_plain: "name_text m inp len c = Some t \<Longrightarrow> \<forall>x \<in> set t. plain x"
  using plain_spec_name_byte plain_spec_name_unit
  by (auto simp: name_text_def split: if_splits)

lemma sprintf_at_poke:
  "sprintf_at buf out t =
     (if out + length t < path_size then Some (poke buf out (map byte_of_char t @ [0])) else None)"
  by (auto simp: sprintf_at_def pb_puts_poke)

lemma poke_Cons: "i < path_size \<Longrightarrow> poke (buf(i := c)) (Suc i) bs = poke buf i (c # bs)"
proof (rule ext)
  fix j
  show "poke (buf(i := c)) (Suc i) bs j = poke buf i (c # bs) j"
  proof (cases "Suc i \<le> j")
    case True
    then have "j - i = Suc (j - Suc i)" by simp
    with True show ?thesis by (simp add: poke_def)
  next
    case False
    then show ?thesis by (simp add: poke_def)
  qed
qed

lemma cstr_poke:
  assumes pre: "\<forall>i<path. buf i \<noteq> 0"
    and nz: "\<forall>c \<in> set T. byte_of_char c \<noteq> 0"
    and fits: "path + length T < path_size"
  shows "cstr_from (poke buf path (map byte_of_char T @ [0])) 0 = Some (path_text buf path @ T)"
proof -
  let ?B = "map byte_of_char T @ [0]"
  let ?b = "poke buf path ?B"
  let ?n = "path + length T"
  have at: "\<And>i. path \<le> i \<Longrightarrow> i < ?n \<Longrightarrow> ?b i = byte_of_char (T ! (i - path))"
  proof -
    fix i assume i: "path \<le> i" "i < ?n"
    then have "i - path < length T" by simp
    with i show "?b i = byte_of_char (T ! (i - path))" by (simp add: poke_def nth_append)
  qed
  have before: "\<And>i. i < path \<Longrightarrow> ?b i = buf i"
    by (simp add: poke_def)
  have endz: "?b ?n = 0" by (simp add: poke_def nth_append)
  have nonz: "\<And>i. 0 \<le> i \<Longrightarrow> i < ?n \<Longrightarrow> ?b i \<noteq> 0"
  proof -
    fix i assume "i < ?n"
    show "?b i \<noteq> 0"
    proof (cases "i < path")
      case True
      with pre before show ?thesis by simp
    next
      case False
      with \<open>i < ?n\<close> have "i - path < length T" by simp
      then have "T ! (i - path) \<in> set T" by (rule nth_mem)
      with nz at[of i] False \<open>i < ?n\<close> show ?thesis by simp
    qed
  qed
  have "cstr_from ?b 0 = Some (map (\<lambda>i. char_of_byte (?b i)) [0..<?n])"
    by (rule cstr_from_upto[where k = 0 and n = "?n" and buf = "?b"])
      (use fits endz nonz in simp_all)
  moreover have "map (\<lambda>i. char_of_byte (?b i)) [0..<?n] = path_text buf path @ T"
  proof (rule nth_equalityI)
    show "length (map (\<lambda>i. char_of_byte (?b i)) [0..<?n]) = length (path_text buf path @ T)"
      by (simp add: path_text_def)
  next
    fix i assume "i < length (map (\<lambda>i. char_of_byte (?b i)) [0..<?n])"
    then have i: "i < ?n" by simp
    show "map (\<lambda>i. char_of_byte (?b i)) [0..<?n] ! i = (path_text buf path @ T) ! i"
    proof (cases "i < path")
      case True
      with i before show ?thesis by (simp add: path_text_def nth_append)
    next
      case False
      with i at[of i] show ?thesis
        by (simp add: path_text_def nth_append char_byte_char del: upt_Suc)
    qed
  qed
  ultimately show ?thesis by simp
qed

lemma enter_key_Some:
  assumes "rd16 m (key + 76) = Some ln" and "rd_bytes m (key + 80) (nat (sint ln)) = Some raw"
  shows "\<exists>s1 lk. enter_key m key s = Some (s1, lk)"
proof -
  have a: "sint ln = 10 \<Longrightarrow> rd_bytes m (key + 80) 10 = Some raw" using assms(2) by simp
  have b: "sint ln = 14 \<Longrightarrow> rd_bytes m (key + 80) 14 = Some raw" using assms(2) by simp
  show ?thesis
  proof -
    consider "sint ln = 10" | "sint ln = 14" | "sint ln \<noteq> 10 \<and> sint ln \<noteq> 14" by blast
    then show ?thesis
      using assms(1) a b by cases (auto simp: enter_key_def)
  qed
qed

lemma val_loop_none: "rd32 (hive e) (key + 40) = Some 0 \<Longrightarrow> val_loop e key vl p 0 s = Some s"
  by (simp add: val_loop.simps[of e key vl p 0 s])

lemma leaf_loop_none: "rd16 m (item + 6) = Some 0 \<Longrightarrow> leaf_loop rec m item ii 0 s = Some s"
  by (simp add: leaf_loop.simps[of rec m item ii 0 s])

lemma ri_loop_none: "rd16 m (item + 6) = Some 0 \<Longrightarrow> ri_loop rec m item 0 s = Some s"
  by (simp add: ri_loop.simps[of rec m item 0 s])

lemma children_none: "no_subkeys m key \<Longrightarrow> children rec m key ek s = Some (s, ek)"
  by (auto simp: no_subkeys_def children_def leaf_loop_none ri_loop_none)

lemma walk_leaf_key:
  assumes nok: "\<not> only_keys e"
    and fl: "rd16 (hive e) (key + 6) = Some fl"
    and ln: "rd16 (hive e) (key + 76) = Some ln"
    and raw: "rd_bytes (hive e) (key + 80) (nat (sint ln)) = Some raw"
    and t: "name_text (hive e) (key + 80) (sint ln) (fl AND 0x20 \<noteq> 0) = Some t"
    and fits: "path + 1 + length t < path_size"
    and vc: "rd32 (hive e) (key + 40) = Some 0"
    and vl: "rd32 (hive e) (key + 44) = Some vlv"
    and ns: "no_subkeys (hive e) key"
    and st: "(if time_sec e \<or> time_full e
              then rd64 (hive e) (key + 8) \<bind> (\<lambda>ts. print_time (localtime e) ts (time_full e) True)
              else Some []) = Some stamp"
    and pre: "\<forall>i<path. pathbuf s i \<noteq> 0"
  shows "walk (Suc fuel) e s path key =
     Some (s\<lparr>pathbuf := poke (pathbuf s) path (map byte_of_char (CHR ''/'' # t) @ [0]),
             stdout := stdout s @
               (if only_values e then []
                else stamp @ (if hex_type e then replicate 20 CHR '' '' else []) @
                     path_text (pathbuf s) path @ CHR ''/'' # t @ ''\<newline>'')\<rparr>)"
proof -
  let ?buf2 = "poke (pathbuf s) path (map byte_of_char (CHR ''/'' # t) @ [0])"
  have p: "path < path_size" using fits by simp
  have b1: "pb_put (pathbuf s) path 0x2F = Some ((pathbuf s)(path := 0x2F))"
    using p by (simp add: pb_put_def)
  have sl: "byte_of_char CHR ''/'' = 0x2F" by (simp add: byte_of_char_def)
  have mn: "make_name (hive e) ((pathbuf s)(path := 0x2F)) (Suc path) (key + 80) (sint ln)
              (fl AND 0x20 \<noteq> 0) = Some (?buf2, Suc path + length t)"
    using fits p by (simp add: make_name_text[OF t] sprintf_at_poke poke_Cons sl)
  let ?s1 = "s\<lparr>pathbuf := ?buf2\<rparr>"
  obtain s1' lk where ek: "enter_key (hive e) key ?s1 = Some (s1', lk)"
    using enter_key_Some[OF ln raw] by blast
  note ef = enter_key_flags[OF ek]
  have kv: "key_values e key (Suc path + length t) ?s1 = Some (s1', True, lk)"
    using nok ek vc vl by (simp add: key_values_def val_loop_none)
  have ch: "children (\<lambda>s' k. walk fuel e s' (Suc path + length t) k) (hive e) key True s1'
      = Some (s1', True)"
    by (rule children_none[OF ns])
  have nzT: "\<forall>c \<in> set (CHR ''/'' # t). byte_of_char c \<noteq> 0"
    using name_text_plain[OF t] plain_brackets(3) by (auto simp: plain_def)
  have full: "cstr_from ?buf2 0 = Some (path_text (pathbuf s) path @ CHR ''/'' # t)"
    by (rule cstr_poke[OF pre nzT]) (use fits in simp)
  have pb1: "pathbuf s1' = ?buf2" and so1: "stdout s1' = stdout s"
    using ef by simp_all
  have kl: "key_line e key s1' = Some (s1'\<lparr>stdout := stdout s @ stamp @
              (if hex_type e then replicate 20 CHR '' '' else []) @
              (path_text (pathbuf s) path @ CHR ''/'' # t) @ ''\<newline>''\<rparr>)"
    using st full by (simp add: key_line_def pb1 so1)
  have fin: "leave lk (s1'\<lparr>stdout := x\<rparr>) = s\<lparr>pathbuf := ?buf2, stdout := x\<rparr>" for x
    using ef by (cases lk rule: option.exhaust; cases "the lk") (auto simp: leave_def)
  have fin0: "leave lk s1' = s\<lparr>pathbuf := ?buf2, stdout := stdout s @ []\<rparr>"
    using ef by (cases lk rule: option.exhaust; cases "the lk") (auto simp: leave_def)
  show ?thesis
  proof (cases "only_values e")
    case True
    then show ?thesis
      using b1 fl ln mn kv ch by (simp add: fin0 del: pb_puts.simps append_Nil2)
  next
    case False
    then show ?thesis
      using b1 fl ln mn kv ch kl fin by (simp del: pb_puts.simps)
  qed
qed

lemma newline_count_append: "newline_count (a @ b) = newline_count a + newline_count b"
  by (simp add: newline_count_def)

lemma newline_count_0: "CHR ''\<newline>'' \<notin> set s \<Longrightarrow> newline_count s = 0"
  by (auto simp: newline_count_def filter_empty_conv)

lemma digit_hexdigit: "d < 10 \<Longrightarrow> hexdigit d \<in> set ''0123456789''"
proof -
  assume "d < 10"
  then have "d = 0 \<or> d = 1 \<or> d = 2 \<or> d = 3 \<or> d = 4 \<or> d = 5 \<or> d = 6 \<or> d = 7 \<or> d = 8 \<or> d = 9"
    by arith
  then show ?thesis by (auto simp: hexdigit_def)
qed

lemma dec_nat_digits: "set (dec_nat n) \<subseteq> set ''0123456789''"
proof (induction n rule: dec_nat.induct)
  case (1 n)
  show ?case
  proof (cases "n < 10")
    case True
    then show ?thesis using digit_hexdigit[of n] by (simp add: dec_nat_lt10)
  next
    case False
    then have "n mod 10 < 10" by simp
    with False "1.IH" digit_hexdigit[of "n mod 10"] show ?thesis
      by (simp add: dec_nat_ge10)
  qed
qed

lemma fmt_no_newline:
  "CHR ''\<newline>'' \<notin> set (fmt_d i)" "CHR ''\<newline>'' \<notin> set (fmt_0d w i)"
  using dec_nat_digits[of "nat i"] dec_nat_digits[of "nat (- i)"]
  by (auto simp: fmt_d_def fmt_0d_def pad0_def)

lemma print_time_no_newline: "print_time lt t f b = Some x \<Longrightarrow> CHR ''\<newline>'' \<notin> set x"
  using fmt_no_newline by (auto simp: print_time_def split: option.splits)

lemma path_text_no_newline:
  "\<forall>i<n. buf i \<noteq> 10 \<Longrightarrow> CHR ''\<newline>'' \<notin> set (path_text buf n)"
proof
  assume a: "\<forall>i<n. buf i \<noteq> 10" and "CHR ''\<newline>'' \<in> set (path_text buf n)"
  then obtain i where i: "i < n" and "char_of_byte (buf i) = CHR ''\<newline>''"
    by (auto simp: path_text_def)
  then have "byte_of_char (char_of_byte (buf i)) = byte_of_char CHR ''\<newline>''" by simp
  then have "buf i = byte_of_char CHR ''\<newline>''" unfolding byte_char_byte .
  then have "buf i = 10" by (simp add: byte_of_char_def)
  with a i show False by simp
qed

lemma key_values_flags_iff:
  assumes "key_values e key p s = Some (s2, ek, lk)"
  shows "(lk = Some Properties \<longleftrightarrow>
            \<not> only_keys e \<and> \<not> properties s \<and> key_named (hive e) key ''Properties'') \<and>
         (lk = Some DriverPackages \<longleftrightarrow>
            \<not> only_keys e \<and> \<not> driverpackages s \<and> key_named (hive e) key ''DriverPackages'') \<and>
         properties s2 = (properties s \<or> lk = Some Properties) \<and>
         driverpackages s2 = (driverpackages s \<or> lk = Some DriverPackages)"
proof (cases "only_keys e")
  case True
  with assms have "lk = None" by (auto simp: key_values_def Option.bind_eq_Some_conv)
  with key_values_flags[OF assms] True show ?thesis by simp
next
  case False
  with assms obtain s1 vl where ek: "enter_key (hive e) key s = Some (s1, lk)"
    by (auto simp: key_values_def Option.bind_eq_Some_conv)
  from enter_key_flags[OF ek] key_values_flags[OF assms] False show ?thesis by blast
qed

lemma walk_shape:
  assumes "walk (Suc fuel) e s path key = Some s'"
  shows "\<exists>b p s2 ek lk s3. key_values e key p (s\<lparr>pathbuf := b\<rparr>) = Some (s2, ek, lk) \<and>
           properties s3 = properties s2 \<and> driverpackages s3 = driverpackages s2 \<and>
           s' = leave lk s3"
proof -
  from assms obtain buf1 and fl len :: "16 word" and r v c s3 where
    kv: "key_values e key (snd r) (s\<lparr>pathbuf := fst r\<rparr>) = Some v"
    and ch: "children (\<lambda>s' k. walk fuel e s' (snd r) k) (hive e) key (fst (snd v)) (fst v) = Some c"
    and kl: "(if snd c \<and> \<not> only_values e then key_line e key (fst c) else Some (fst c)) = Some s3"
    and s': "s' = leave (snd (snd v)) s3"
    unfolding walk.simps Option.bind_eq_Some_conv by blast
  obtain s2 ek lk where v: "v = (s2, ek, lk)" by (cases v)
  obtain sc ek' where c: "c = (sc, ek')" by (cases c)
  have k3: "keeps (snd r) s2 sc"
    by (rule children_keeps[OF ch[unfolded v c, simplified]]) (rule walk_keeps)
  have k4: "keeps (snd r) sc s3"
    using kl key_line_keeps[of e key sc s3 "snd r"] unfolding c
    by (auto simp: keeps_refl split: if_splits)
  from keeps_trans[OF k3 k4] have f: "properties s3 = properties s2"
    "driverpackages s3 = driverpackages s2" by (simp_all add: keeps_def)
  have "s' = leave lk s3" using s' v by simp
  with kv[unfolded v] f show ?thesis by blast
qed

lemma prop_key_flags: "rd16 prop_key (0 + 6) = Some 0x20"
  by (simp add: rd16_def le_nat_def prop_key_def)

lemma prop_key_len: "rd16 prop_key (0 + 76) = Some 10"
  by (simp add: rd16_def le_nat_def prop_key_def)

lemma prop_key_raw: "rd_bytes prop_key (0 + 80) 10 = Some (map byte_of_char ''Properties'')"
  by (simp add: rd_bytes_def prop_key_def upt_rec[of _ "numeral _"])

lemma prop_key_raw': "rd_bytes prop_key (0 + 80) (nat (sint (10 :: 16 word))) = Some (map byte_of_char ''Properties'')"
  using prop_key_raw by simp

lemma spec_name_byte_plain_char:
  "32 \<le> unat (byte_of_char c) \<Longrightarrow> unat (byte_of_char c) \<le> 126 \<Longrightarrow>
   spec_name_byte (byte_of_char c) = [c]"
  by (simp add: spec_name_byte_def char_byte_char)

lemma concat_map_single: "\<forall>c \<in> set S. f (g c) = [c] \<Longrightarrow> concat (map f (map g S)) = S"
  by (induction S) simp_all

lemma prop_key_text:
  "name_text prop_key (0 + 80) (sint (10 :: 16 word)) ((0x20 :: 16 word) AND 0x20 \<noteq> 0) = Some ''Properties''"
proof -
  have "\<forall>c \<in> set ''Properties''. 32 \<le> unat (byte_of_char c) \<and> unat (byte_of_char c) \<le> 126"
    by (simp add: byte_of_char_def)
  then have "\<forall>c \<in> set ''Properties''. spec_name_byte (byte_of_char c) = [c]"
    using spec_name_byte_plain_char by blast
  then have "concat (map spec_name_byte (map byte_of_char ''Properties'')) = ''Properties''"
    by (rule concat_map_single)
  then show ?thesis using prop_key_raw' by (simp add: name_text_def)
qed

lemma prop_key_vc: "rd32 prop_key (0 + 40) = Some 0"
  by (simp add: rd32_def rd_bytes_def le_nat_def prop_key_def upt_rec[of _ "numeral _"])

lemma prop_key_vl: "rd32 prop_key (0 + 44) = Some (- 1)"
  by (simp add: rd32_def rd_bytes_def le_nat_def prop_key_def upt_rec[of _ "numeral _"])

lemma prop_key_ns: "no_subkeys prop_key 0"
  by (simp add: no_subkeys_def rd32_def rd_bytes_def le_nat_def prop_key_def upt_rec[of _ "numeral _"])

lemma prop_key_walk:
  assumes "path + 1 + 10 < path_size" and "\<forall>i<path. pathbuf s i \<noteq> 0"
  shows "walk (Suc fuel) (plain_env prop_key) s path 0 =
     Some (s\<lparr>pathbuf := poke (pathbuf s) path (map byte_of_char ''/Properties'' @ [0]),
             stdout := stdout s @ path_text (pathbuf s) path @ ''/Properties\<newline>''\<rparr>)"
proof -
  have e: "hive (plain_env prop_key) = prop_key" "\<not> only_keys (plain_env prop_key)"
    "\<not> only_values (plain_env prop_key)" "\<not> hex_type (plain_env prop_key)"
    by (simp_all add: plain_env_def)
  have st: "(if time_sec (plain_env prop_key) \<or> time_full (plain_env prop_key)
              then rd64 (hive (plain_env prop_key)) (0 + 8) \<bind>
                (\<lambda>ts. print_time (localtime (plain_env prop_key)) ts (time_full (plain_env prop_key)) True)
              else Some []) = Some []"
    by (simp add: plain_env_def)
  have fits: "path + 1 + length ''Properties'' < path_size" using assms(1) by simp
  show ?thesis
    using walk_leaf_key[of "plain_env prop_key" 0 "0x20" 10 "map byte_of_char ''Properties''"
        "''Properties''" path "- 1" "[]" s fuel, unfolded e, OF _ prop_key_flags prop_key_len
        prop_key_raw' prop_key_text fits prop_key_vc prop_key_vl prop_key_ns st[unfolded e] assms(2)]
    by (simp add: e)
qed


lemma char_a: "char_of_byte 0x61 = CHR ''a''"
  unfolding char_of_byte_def by (simp, simp add: char_eval)

lemma busy_walk:
  "walk (Suc 0) (plain_env prop_key) busy_state 3 0 =
     Some (busy_state\<lparr>pathbuf := poke (pathbuf busy_state) 3 (map byte_of_char ''/Properties'' @ [0]),
                      stdout := ''aaa/Properties\<newline>''\<rparr>)"
proof -
  have "walk (Suc 0) (plain_env prop_key) busy_state 3 0 =
     Some (busy_state\<lparr>pathbuf := poke (pathbuf busy_state) 3 (map byte_of_char ''/Properties'' @ [0]),
             stdout := stdout busy_state @ path_text (pathbuf busy_state) 3 @ ''/Properties\<newline>''\<rparr>)"
    by (rule prop_key_walk) (simp_all add: path_size_def busy_state_def)
  moreover have "stdout busy_state @ path_text (pathbuf busy_state) 3 = ''aaa''"
    by (simp add: busy_state_def path_text_def upt_rec[of _ "numeral _"] char_a)
  ultimately show ?thesis by simp
qed

lemma init_walk:
  "walk (Suc 0) (plain_env prop_key) init_state 0 0 =
     Some (init_state\<lparr>pathbuf := poke (pathbuf init_state) 0 (map byte_of_char ''/Properties'' @ [0]),
                     stdout := ''/Properties\<newline>''\<rparr>)"
proof -
  have "walk (Suc 0) (plain_env prop_key) init_state 0 0 =
     Some (init_state\<lparr>pathbuf := poke (pathbuf init_state) 0 (map byte_of_char ''/Properties'' @ [0]),
             stdout := stdout init_state @ path_text (pathbuf init_state) 0 @ ''/Properties\<newline>''\<rparr>)"
    by (rule prop_key_walk) (simp_all add: path_size_def)
  moreover have "stdout init_state @ path_text (pathbuf init_state) 0 = []"
    by (simp add: init_state_def path_text_def)
  ultimately show ?thesis by simp
qed

lemma prop_key_values:
  "key_values (plain_env prop_key) 0 11 init_state =
     Some (init_state\<lparr>properties := True\<rparr>, True, Some Properties)"
proof -
  have "enter_key prop_key 0 init_state = Some (init_state\<lparr>properties := True\<rparr>, Some Properties)"
    using prop_key_len prop_key_raw by (simp add: enter_key_def init_state_def)
  then show ?thesis
    using prop_key_vc prop_key_vl
    by (simp add: key_values_def plain_env_def val_loop.simps[of _ 0 _ 11 0])
qed

lemma visit_append:
  "visit rec (xs @ ys) s = (case visit rec xs s of None \<Rightarrow> None | Some s' \<Rightarrow> visit rec ys s')"
  by (induction xs arbitrary: s) (simp_all split: option.split)

lemma those_upt_Cons:
  "j < n \<Longrightarrow> those (map f [j..<n]) =
     (case f j of None \<Rightarrow> None | Some x \<Rightarrow> map_option (Cons x) (those (map f [Suc j..<n])))"
  by (simp add: upt_conv_Cons)

lemma leaf_loop_from:
  assumes cnt: "rd16 m (item + 6) = Some cnt" and n: "n = nat (sint cnt)"
  shows "j \<le> n \<Longrightarrow> those (map (\<lambda>i. rd32 m (item + 8 + 4 * (int i * ii))) [j..<n]) = Some ks \<Longrightarrow>
         leaf_loop rec m item ii (int j) s = visit rec (map sint ks) s"
proof (induction "n - j" arbitrary: j ks s)
  case 0
  then have jn: "j = n" by simp
  with 0 have "ks = []" by simp
  moreover have "\<not> int j < sint cnt" using jn n by simp
  ultimately show ?case using cnt by (simp add: leaf_loop.simps[of rec m item ii "int j" s])
next
  case (Suc d)
  then have lt: "j < n" by simp
  then have lt': "int j < sint cnt" using n by simp
  from Suc.prems(2) obtain k ks' where k: "rd32 m (item + 8 + 4 * (int j * ii)) = Some k"
    and rest: "those (map (\<lambda>i. rd32 m (item + 8 + 4 * (int i * ii))) [Suc j..<n]) = Some ks'"
    and ks: "ks = k # ks'"
    unfolding those_upt_Cons[OF lt] by (auto split: option.splits)
  have IH: "\<And>s. leaf_loop rec m item ii (int (Suc j)) s = visit rec (map sint ks') s"
    using Suc.hyps(1)[of "Suc j" ks'] Suc.hyps(2) lt rest by simp
  have e: "int j + 1 = int (Suc j)" by simp
  show ?case
    using cnt lt' k
    by (cases "rec s (sint k)")
       (simp_all add: leaf_loop.simps[of rec m item ii "int j" s] ks e IH del: of_nat_Suc)
qed

lemma leaf_loop_visit:
  assumes "rd16 m (item + 6) = Some cnt" and "entries m item ii (nat (sint cnt)) = Some ks"
  shows "leaf_loop rec m item ii 0 s = visit rec ks s"
proof -
  from assms(2) obtain ws where
    ws: "those (map (\<lambda>i. rd32 m (item + 8 + 4 * (int i * ii))) [0..<nat (sint cnt)]) = Some ws"
    and ks: "ks = map sint ws" by (auto simp: entries_def)
  from leaf_loop_from[OF assms(1) refl, of 0 ii ws rec s] ws ks show ?thesis by simp
qed

lemma stride_eq: "stride t1 = (if t1 = 0x69 then 1 else 2)"
  by (simp add: stride_def)

lemma ri_loop_visit:
  assumes "ri_entries m item = Some ks"
  shows "ri_loop rec m item 0 s = visit rec ks s"
proof -
  from assms obtain cnt where cnt: "rd16 m (item + 6) = Some cnt"
    by (auto simp: ri_entries_def split: option.splits)
  show ?thesis
  proof (cases "sint cnt \<le> 0")
    case True
    with assms cnt have "ks = []" by (simp add: ri_entries_def)
    with True cnt show ?thesis by (simp add: ri_loop.simps[of rec m item 0 s])
  next
    case False
    with assms cnt have one: "sint cnt = 1"
      by (auto simp: ri_entries_def split: if_splits)
    with assms cnt obtain so where so: "rd32 m (item + 8) = Some so"
      and le: "leaf_entries m (sint so) = Some ks"
      by (auto simp: ri_entries_def split: option.splits)
    from le obtain t1 c where t1: "m (sint so + 5) = Some t1"
      and c: "rd16 m (sint so + 6) = Some c"
      and en: "entries m (sint so) (stride t1) (nat (sint c)) = Some ks"
      by (auto simp: leaf_entries_def stride_eq split: option.splits)
    have inner: "leaf_loop rec m (sint so) (stride t1) 0 s = visit rec ks s"
      by (rule leaf_loop_visit[OF c en])
    have ie: "index_entry m item 0 = Some so"
      using so by (simp add: index_entry_def)
    have last: "\<And>s'. ri_loop rec m item 1 s' = Some s'"
      by (subst ri_loop.simps) (simp add: cnt one)
    show ?thesis
      using cnt one ie t1 inner
      by (cases "visit rec ks s") (simp_all add: ri_loop.simps[of rec m item 0 s] last)
  qed
qed

lemma children_visit:
  assumes sub: "rd32 m (key + 32) = Some sub" "sub \<noteq> - 1"
    and cnt: "rd16 m (sint sub + 6) = Some cnt"
    and t0: "m (sint sub + 4) = Some t0"
    and ks: "(if t0 = 0x6C then leaf_entries m (sint sub) else ri_entries m (sint sub)) = Some ks"
  shows "children rec m key ek s =
           (case visit rec ks s of None \<Rightarrow> None | Some s' \<Rightarrow> Some (s', ek \<and> cnt = 0))"
proof (cases "t0 = 0x6C")
  case True
  with ks obtain t1 where t1: "m (sint sub + 5) = Some t1"
    and en: "entries m (sint sub) (stride t1) (nat (sint cnt)) = Some ks"
    using cnt by (auto simp: leaf_entries_def stride_eq split: option.splits)
  from leaf_loop_visit[OF cnt en, of rec s] sub cnt t0 t1 True show ?thesis
    by (cases "visit rec ks s") (auto simp: children_def)
next
  case False
  with ks have "ri_entries m (sint sub) = Some ks" by simp
  from ri_loop_visit[OF this, of rec s] sub cnt t0 False show ?thesis
    by (cases "visit rec ks s") (auto simp: children_def)
qed

lemmas li_eval = rd16_def rd32_def rd_bytes_def le_nat_def li_hive_def upt_rec[of _ "numeral _"]

lemma li_leaf_entries: "leaf_entries li_hive 128 = Some [256, 512]"
  by (simp add: leaf_entries_def entries_def li_eval)

lemma li_sub: "rd32 li_hive (0 + 32) = Some 128"
  by (simp add: li_eval)

lemma li_cnt: "rd16 li_hive (sint (128 :: 32 word) + 6) = Some 2"
  by (simp add: li_eval)

lemma li_t0: "li_hive (sint (128 :: 32 word) + 4) = Some 0x6C"
  by (simp add: li_eval)

lemma li_ks:
  "(if (0x6C :: byte) = 0x6C then leaf_entries li_hive (sint (128 :: 32 word))
    else ri_entries li_hive (sint (128 :: 32 word))) = Some [256, 512]"
  using li_leaf_entries by simp

lemma li_children:
  "children rec li_hive 0 ek s =
     (case visit rec [256, 512] s of None \<Rightarrow> None | Some s' \<Rightarrow> Some (s', False))"
  using children_visit[of li_hive 0 128 2 "0x6C" "[256, 512]" rec ek s, OF li_sub _ li_cnt li_t0 li_ks]
  by (auto split: option.splits)

lemma li_child_walk:
  assumes k: "(k, c) = (256, CHR ''A'') \<or> (k, c) = (512, CHR ''B'')"
    and pre: "\<forall>i<2. pathbuf s i \<noteq> 0"
  shows "walk (Suc fuel) (plain_env li_hive) s 2 k =
     Some (s\<lparr>pathbuf := poke (pathbuf s) 2 (map byte_of_char [CHR ''/'', c] @ [0]),
             stdout := stdout s @ path_text (pathbuf s) 2 @ [CHR ''/'', c, CHR ''\<newline>'']\<rparr>)"
proof -
  have e: "hive (plain_env li_hive) = li_hive" "\<not> only_keys (plain_env li_hive)"
    "\<not> only_values (plain_env li_hive)" "\<not> hex_type (plain_env li_hive)"
    by (simp_all add: plain_env_def)
  have st: "(if time_sec (plain_env li_hive) \<or> time_full (plain_env li_hive)
              then rd64 li_hive (k + 8) \<bind>
                (\<lambda>ts. print_time (localtime (plain_env li_hive)) ts (time_full (plain_env li_hive)) True)
              else Some []) = Some []"
    by (simp add: plain_env_def)
  have fl: "rd16 li_hive (k + 6) = Some 0x20" using k by (elim disjE; simp add: li_eval)
  have ln: "rd16 li_hive (k + 76) = Some 1" using k by (elim disjE; simp add: li_eval)
  have raw: "rd_bytes li_hive (k + 80) (nat (sint (1 :: 16 word))) = Some [byte_of_char c]"
    using k by (elim disjE; simp add: rd_bytes_def li_hive_def byte_of_char_def)
  have sp: "spec_name_byte (byte_of_char c) = [c]"
  proof (rule spec_name_byte_plain_char)
    show "32 \<le> unat (byte_of_char c)" using k by (elim disjE; simp add: byte_of_char_def)
    show "unat (byte_of_char c) \<le> 126" using k by (elim disjE; simp add: byte_of_char_def)
  qed
  have t: "name_text li_hive (k + 80) (sint (1 :: 16 word)) ((0x20 :: 16 word) AND 0x20 \<noteq> 0) = Some [c]"
    using raw sp by (simp add: name_text_def)
  have fits: "2 + 1 + length [c] < path_size" by (simp add: path_size_def)
  have vc: "rd32 li_hive (k + 40) = Some 0" using k by (elim disjE; simp add: li_eval)
  have vl: "rd32 li_hive (k + 44) = Some (- 1)" using k by (elim disjE; simp add: li_eval)
  have ns: "no_subkeys li_hive k" using k by (elim disjE; simp add: no_subkeys_def li_eval)
  show ?thesis
    using walk_leaf_key[of "plain_env li_hive" k "0x20" 1 "[byte_of_char c]" "[c]" 2 "- 1" "[]" s fuel,
        unfolded e, OF _ fl ln raw t fits vc vl ns st pre]
    by (simp add: e)
qed

lemma li_root_name:
  "make_name li_hive ((\<lambda>_. 0)(0 := 0x2F)) (Suc 0) (0 + 80) (sint (1 :: 16 word))
     ((0x20 :: 16 word) AND 0x20 \<noteq> 0)
   = Some (poke (\<lambda>_. 0) 0 (map byte_of_char ''/R'' @ [0]), 2)"
proof -
  have raw: "rd_bytes li_hive (0 + 80) (nat (sint (1 :: 16 word))) = Some [byte_of_char CHR ''R'']"
    by (simp add: rd_bytes_def li_hive_def byte_of_char_def)
  have sp: "spec_name_byte (byte_of_char CHR ''R'') = ''R''"
    by (rule spec_name_byte_plain_char) (simp_all add: byte_of_char_def)
  have t: "name_text li_hive (0 + 80) (sint (1 :: 16 word)) ((0x20 :: 16 word) AND 0x20 \<noteq> 0) = Some ''R''"
    using raw sp by (simp add: name_text_def)
  have sl: "(0x2F :: byte) = byte_of_char CHR ''/''" by (simp add: byte_of_char_def)
  have pk: "poke ((\<lambda>_. 0)(0 := byte_of_char CHR ''/'')) (Suc 0) (map byte_of_char ''R'' @ [0])
      = poke (\<lambda>_. 0) 0 (map byte_of_char ''/R'' @ [0])"
    using poke_Cons[of 0 "\<lambda>_. 0" "byte_of_char CHR ''/''" "map byte_of_char ''R'' @ [0]"]
    by (simp add: path_size_def)
  show ?thesis
    unfolding make_name_text[OF t] sprintf_at_poke sl pk
    by (simp add: path_size_def)
qed

lemma li_root_prefix:
  "poke (\<lambda>_. 0) 0 (map byte_of_char ''/R'' @ [0]) 0 = byte_of_char CHR ''/''"
  "poke (\<lambda>_. 0) 0 (map byte_of_char ''/R'' @ [0]) (Suc 0) = byte_of_char CHR ''R''"
  by (simp_all add: poke_def)

lemma li_path_text:
  assumes "b 0 = byte_of_char CHR ''/''" "b (Suc 0) = byte_of_char CHR ''R''"
  shows "path_text b 2 = ''/R''"
  using assms by (simp add: path_text_def upt_rec[of _ "numeral _"] char_byte_char)

lemma li_nonzero:
  assumes "b 0 = byte_of_char CHR ''/''" "b (Suc 0) = byte_of_char CHR ''R''"
  shows "\<forall>i<2. b i \<noteq> 0"
proof (intro allI impI)
  fix i :: nat assume "i < 2"
  then have "i = 0 \<or> i = Suc 0" by arith
  with assms show "b i \<noteq> 0" by (auto simp: byte_of_char_def)
qed

lemma poke_before: "i < p \<Longrightarrow> poke b p bs i = b i"
  by (simp add: poke_def)

lemma li_root_walk:
  "map_option stdout (walk (Suc (Suc 0)) (plain_env li_hive) init_state 0 0)
   = Some ''/R/A\<newline>/R/B\<newline>''"
proof -
  define E where "E = plain_env li_hive"
  define A where "A = (\<lambda>_ :: nat. 0 :: byte)(0 := 0x2F)"
  define B where "B = poke (\<lambda>_. 0) 0 (map byte_of_char ''/R'' @ [0])"
  define s1 where "s1 = init_state\<lparr>pathbuf := B\<rparr>"
  define rc where "rc = (\<lambda>s' k. walk (Suc 0) E s' 2 k)"
  define B2 where "B2 = poke B 2 (map byte_of_char [CHR ''/'', CHR ''A''] @ [0])"
  define s2 where "s2 = s1\<lparr>pathbuf := B2,
      stdout := stdout s1 @ path_text B 2 @ [CHR ''/'', CHR ''A'', CHR ''\<newline>'']\<rparr>"
  define s3 where "s3 = s2\<lparr>pathbuf := poke B2 2 (map byte_of_char [CHR ''/'', CHR ''B''] @ [0]),
      stdout := stdout s2 @ path_text B2 2 @ [CHR ''/'', CHR ''B'', CHR ''\<newline>'']\<rparr>"
  have e: "hive E = li_hive" "\<not> only_keys E" "\<not> only_values E"
    by (simp_all add: E_def plain_env_def)
  have b1: "pb_put (pathbuf init_state) 0 0x2F = Some A"
    by (simp add: pb_put_def path_size_def init_state_def A_def)
  have fl: "rd16 li_hive (0 + 6) = Some 0x20" by (simp add: li_eval)
  have ln: "rd16 li_hive (0 + 76) = Some 1" by (simp add: li_eval)
  have vc: "rd32 li_hive (0 + 40) = Some 0" by (simp add: li_eval)
  have vl: "rd32 li_hive (0 + 44) = Some (- 1)" by (simp add: li_eval)
  have mn: "make_name li_hive A (Suc 0) (0 + 80) (sint (1 :: 16 word))
     ((0x20 :: 16 word) AND 0x20 \<noteq> 0) = Some (B, 2)"
    unfolding A_def B_def by (rule li_root_name)
  have ek: "enter_key li_hive 0 s1 = Some (s1, None)"
    using ln by (simp add: enter_key_def)
  have kv: "key_values E 0 2 s1 = Some (s1, True, None)"
    using ek vc vl e by (simp add: key_values_def val_loop.simps[of E 0 _ 2 0])
  have p1: "B 0 = byte_of_char CHR ''/''" "B (Suc 0) = byte_of_char CHR ''R''"
    unfolding B_def by (rule li_root_prefix)+
  have p2: "B2 0 = byte_of_char CHR ''/''" "B2 (Suc 0) = byte_of_char CHR ''R''"
    using p1 by (simp_all add: B2_def poke_before)
  have pb: "pathbuf s1 = B" "pathbuf s2 = B2" by (simp_all add: s1_def s2_def)
  have w1: "rc s1 256 = Some s2"
  proof -
    have "walk (Suc 0) (plain_env li_hive) s1 2 256 =
      Some (s1\<lparr>pathbuf := poke (pathbuf s1) 2 (map byte_of_char [CHR ''/'', CHR ''A''] @ [0]),
              stdout := stdout s1 @ path_text (pathbuf s1) 2 @ [CHR ''/'', CHR ''A'', CHR ''\<newline>'']\<rparr>)"
      by (rule li_child_walk) (simp_all add: pb li_nonzero[OF p1])
    then show ?thesis unfolding rc_def s2_def E_def B2_def pb .
  qed
  have w2: "rc s2 512 = Some s3"
  proof -
    have "walk (Suc 0) (plain_env li_hive) s2 2 512 =
      Some (s2\<lparr>pathbuf := poke (pathbuf s2) 2 (map byte_of_char [CHR ''/'', CHR ''B''] @ [0]),
              stdout := stdout s2 @ path_text (pathbuf s2) 2 @ [CHR ''/'', CHR ''B'', CHR ''\<newline>'']\<rparr>)"
      by (rule li_child_walk) (simp_all add: pb li_nonzero[OF p2])
    then show ?thesis unfolding rc_def s3_def E_def pb .
  qed
  have vis: "visit rc [256, 512] s1 = Some s3"
    using w1 w2 by simp
  have ch: "children rc li_hive 0 True s1 = Some (s3, False)"
    unfolding li_children vis by simp
  have out: "stdout s3 = ''/R/A\<newline>/R/B\<newline>''"
    by (simp add: s3_def s2_def s1_def li_path_text[OF p1] li_path_text[OF p2] init_state_def)
  have "walk (Suc (Suc 0)) E init_state 0 0 = Some s3"
    using b1 fl ln mn kv ch
    by (subst walk.simps(2)) (simp add: e leave_def rc_def s1_def del: walk.simps pb_puts.simps)
  then show ?thesis using out by (simp add: E_def)
qed

lemmas ri_eval = rd16_def rd32_def rd_bytes_def le_nat_def ri_hive_def li_hive_def
  upt_rec[of _ "numeral _"]

lemma ri_sub: "rd32 ri_hive (0 + 32) = Some 128"
  by (simp add: ri_eval)

lemma ri_cnt: "rd16 ri_hive (sint (128 :: 32 word) + 6) = Some 1"
  by (simp add: ri_eval)

lemma ri_t0: "ri_hive (sint (128 :: 32 word) + 4) = Some 0x72"
  by (simp add: ri_eval)

lemma ri_leaf_entries: "leaf_entries ri_hive 192 = Some [256, 512]"
  by (simp add: leaf_entries_def entries_def ri_eval)

lemma ri_ri_entries: "ri_entries ri_hive 128 = Some [256, 512]"
proof -
  have "rd16 ri_hive (128 + 6) = Some 1" "rd32 ri_hive (128 + 8) = Some 192"
    by (simp_all add: ri_eval)
  then show ?thesis
    using ri_leaf_entries by (simp add: ri_entries_def)
qed

lemma ri_ks:
  "(if (0x72 :: byte) = 0x6C then leaf_entries ri_hive (sint (128 :: 32 word))
    else ri_entries ri_hive (sint (128 :: 32 word))) = Some [256, 512]"
  using ri_ri_entries by simp

section \<open>The claims\<close>

text \<open>
  C1. For a value that is not stored inline, \<open>materialize\<close> reassembles big data exactly
  when the logical size exceeds 16344, the version of the hive has \<open>major > 1\<close> or
  \<open>minor > 3\<close>, and the data region starts with \<open>db\<close>; otherwise the data is read in
  place. In the big-data case, when the \<open>db\<close> cell lists \<open>n = ceil(S / 16344)\<close> readable
  segments, the block has exactly \<open>S\<close> bytes: 16344 from each of the first \<open>n - 1\<close>
  segments and \<open>S - 16344 * (n - 1)\<close> from the last, in order.
\<close>

theorem big_data_materialize:
  assumes hdr: "rd32 m (- 4096 + 20) = Some major" "rd32 m (- 4096 + 24) = Some minor"
    and vs: "rd32 m (val + 8) = Some vsize" "vsize AND 0x80000000 = 0"
    and off: "rd32 m (val + 12) = Some off"
    and tag: "m (sint off + 4) = Some c0" "m (sint off + 5) = Some c1"
    and S: "S = logical_size vsize"
    and big: "big = (S > 16344 \<and> (sint major > 1 \<or> sint minor > 3) \<and> c0 = 0x64 \<and> c1 = 0x62)"
  shows "big_data_of m = Some (sint major > 1 \<or> sint minor > 3) \<and>
         materialize (sint major > 1 \<or> sint minor > 3) m val =
           (if big then map_option InBlock (reassemble m (sint off) S)
            else Some (InHive (sint off + 4))) \<and>
         (big \<and> rd16 m (sint off + 6) = Some cnt \<and> sint cnt = int n \<and>
          n = nat ((S + 16343) div 16344) \<and> rd32 m (sint off + 8) = Some dl \<and>
          (\<forall>i<n. rd32 m (sint dl + 4 + 4 * int i) = Some (offs i) \<and>
                  rd_bytes m (sint (offs i) + 4) (seg_len S n i) = Some (segs i))
          \<longrightarrow> materialize (sint major > 1 \<or> sint minor > 3) m val
                = Some (InBlock (map Some (concat (map segs [0..<n])))) \<and>
              int (length (concat (map segs [0..<n]))) = S \<and>
              (\<forall>i<n. length (segs i) = seg_len S n i))"
proof -
  let ?bd = "sint major > 1 \<or> sint minor > 3"
  have a: "big_data_of m = Some ?bd"
    using hdr by (simp add: big_data_of_def)
  have ib: "is_big ?bd m (sint off + 4) S = Some big"
    using tag big by (auto simp: is_big_def add.assoc)
  have b: "materialize ?bd m val =
      (if big then map_option InBlock (reassemble m (sint off) S) else Some (InHive (sint off + 4)))"
    using vs off ib S by (cases "reassemble m (sint off) (logical_size vsize)")
      (simp_all add: materialize_def)
  have c: "materialize ?bd m val = Some (InBlock (map Some (concat (map segs [0..<n])))) \<and>
           int (length (concat (map segs [0..<n]))) = S \<and> (\<forall>i<n. length (segs i) = seg_len S n i)"
    if h: "big" "rd16 m (sint off + 6) = Some cnt" "sint cnt = int n"
      "n = nat ((S + 16343) div 16344)" "rd32 m (sint off + 8) = Some dl"
      "\<forall>i<n. rd32 m (sint dl + 4 + 4 * int i) = Some (offs i) \<and>
              rd_bytes m (sint (offs i) + 4) (seg_len S n i) = Some (segs i)"
  proof -
    have Spos: "0 < S" using h(1) big by simp
    have bnd: "16344 * (int n - 1) < S" "S \<le> 16344 * int n"
      using ceil_bounds[OF Spos h(4)] by simp_all
    have loop: "big_loop m (sint off) (sint dl) (int 0) (16344 * int 0) (S - 16344 * int 0)
           (map Some (concat (map segs [0..<0])) @ replicate (nat (S - 16344 * int 0)) None)
         = Some (map Some (concat (map segs [0..<n])))"
      by (rule big_loop_inv[OF h(2) h(3) bnd, of "sint dl" offs segs 0]) (use h(6) in auto)
    then have re: "reassemble m (sint off) S = Some (map Some (concat (map segs [0..<n])))"
      using h(5) by (simp add: reassemble_def)
    have lens: "\<forall>i<n. length (segs i) = seg_len S n i"
      using h(6) rd_bytes_length by blast
    have "length (map Some (concat (map segs [0..<n]))) = nat S"
    proof -
      have "big_loop m (sint off) (sint dl) 0 0 S (replicate (nat S) None)
            = Some (map Some (concat (map segs [0..<n])))" using loop by simp
      then show ?thesis using big_loop_length by fastforce
    qed
    then have "int (length (concat (map segs [0..<n]))) = S" using Spos by simp
    with re lens b h(1) show ?thesis by simp
  qed
  from a b c show ?thesis by blast
qed

theorem big_data_materialize_witness:
  "big_data_of big_hive = Some True \<and>
   logical_size 16345 = 16345 \<and> nat ((16345 + 16343) div 16344) = (2::nat) \<and>
   rd16 big_hive 6 = Some 2 \<and>
   rd_bytes big_hive 104 16344 = Some (replicate 16344 0) \<and>
   rd_bytes big_hive 20004 (nat (16345 - 16344 * (2 - 1))) = Some [0] \<and>
   materialize True big_hive 30000 = Some (InBlock (map Some (replicate 16344 0 @ [0]))) \<and>
   length (replicate 16344 (0::byte) @ [0]) = 16345"
proof -
  let ?offs = "\<lambda>i::nat. if i = 0 then (100 :: 32 word) else 20000"
  let ?segs = "\<lambda>i::nat. if i = 0 then replicate 16344 (0::byte) else [0]"
  have h1: "rd32 big_hive (- 4096 + 20) = Some 0" by (simp add: rdw_eval big_hive_def)
  have h2: "rd32 big_hive (- 4096 + 24) = Some 5" by (simp add: rdw_eval big_hive_def)
  have h3: "rd32 big_hive (30000 + 8) = Some 16345" by (simp add: rdw_eval big_hive_def)
  have h4: "(16345 :: 32 word) AND 0x80000000 = 0" by simp
  have h5: "rd32 big_hive (30000 + 12) = Some 0" by (simp add: rdw_eval big_hive_def)
  have h6: "big_hive (sint (0 :: 32 word) + 4) = Some 0x64" by (simp add: big_hive_def)
  have h7: "big_hive (sint (0 :: 32 word) + 5) = Some 0x62" by (simp add: big_hive_def)
  have ls: "logical_size 16345 = 16345" by (simp add: logical_size_def)
  have h8: "(16345 :: int) = logical_size 16345" by (simp add: ls)
  have h9: "True = ((16345 :: int) > 16344 \<and> (sint (0 :: 32 word) > 1 \<or> sint (5 :: 32 word) > 3)
              \<and> (0x64 :: byte) = 0x64 \<and> (0x62 :: byte) = 0x62)" by simp
  have n: "nat ((16345 + 16343) div 16344) = (2::nat)" by simp
  have c: "rd16 big_hive (sint (0 :: 32 word) + 6) = Some 2" by (simp add: rdw_eval big_hive_def)
  have dl: "rd32 big_hive (sint (0 :: 32 word) + 8) = Some 16" by (simp add: rdw_eval big_hive_def)
  have o0: "rd32 big_hive 20 = Some 100" by (simp add: rdw_eval big_hive_def)
  have o1: "rd32 big_hive 24 = Some 20000" by (simp add: rdw_eval big_hive_def)
  have s0: "rd_bytes big_hive 104 16344 = Some (replicate 16344 0)"
  proof -
    have "rd_bytes big_hive 104 16344 = Some (map (\<lambda>_. 0) [0..<16344])"
      by (rule rd_bytes_tabulate) (simp add: big_hive_def)
    then show ?thesis by (simp add: map_replicate_const)
  qed
  have s1: "rd_bytes big_hive 20004 (Suc 0) = Some [0]"
    by (simp add: rd_bytes_def big_hive_def)
  have sl: "seg_len 16345 2 0 = 16344" "seg_len 16345 2 (Suc 0) = 1" by (simp_all add: seg_len_def)
  have segs: "\<forall>i<2. rd32 big_hive (sint (16 :: 32 word) + 4 + 4 * int i) = Some (?offs i) \<and>
      rd_bytes big_hive (sint (?offs i) + 4) (seg_len 16345 2 i) = Some (?segs i)"
  proof (intro allI impI)
    fix i :: nat assume "i < 2"
    then consider "i = 0" | "i = 1" by linarith
    then show "rd32 big_hive (sint (16 :: 32 word) + 4 + 4 * int i) = Some (?offs i) \<and>
      rd_bytes big_hive (sint (?offs i) + 4) (seg_len 16345 2 i) = Some (?segs i)"
      by cases (simp_all add: o0 o1 s0 s1 sl)
  qed
  have cat: "concat (map ?segs [0..<2]) = replicate 16344 0 @ [0]"
    by (simp add: upt_rec[of _ "numeral _"])
  note T = big_data_materialize[OF h1 h2 h3 h4 h5 h6 h7 h8 h9, of 2 2 16 ?offs ?segs]
  have sc: "sint (2 :: 16 word) = int 2" by simp
  have n': "(2::nat) = nat ((16345 + 16343) div 16344)" by simp
  have bdv: "(sint (0 :: 32 word) > 1 \<or> sint (5 :: 32 word) > 3) = True" by simp
  have "materialize (sint (0 :: 32 word) > 1 \<or> sint (5 :: 32 word) > 3) big_hive 30000
      = Some (InBlock (map Some (concat (map ?segs [0..<2]))))"
    using T[THEN conjunct2, THEN conjunct2] c sc n' dl segs by blast
  then have "materialize True big_hive 30000 = Some (InBlock (map Some (concat (map ?segs [0..<2]))))"
    unfolding bdv .
  then have m: "materialize True big_hive 30000 = Some (InBlock (map Some (replicate 16344 0 @ [0])))"
    unfolding cat .
  have bd: "big_data_of big_hive = Some True"
    using T[THEN conjunct1] unfolding bdv .
  have c': "rd16 big_hive 6 = Some 2" using c by simp
  have s1': "rd_bytes big_hive 20004 (nat (16345 - 16344 * (2 - 1))) = Some [0]" using s1 by simp
  from bd ls n c' s0 s1' m show ?thesis by simp
qed

text \<open>
  C2. For a value of logical size 8 with effective type QWORD, BINARY or NONE whose 8 data
  bytes can be read, the renderer takes the date/time branch exactly when the
  little-endian 64-bit value \<open>v\<close> satisfies \<open>126227808000000000 \<le> v < 157784544000000000\<close>
  (as a signed and equally as an unsigned value); the text is then the local date and
  time followed by \<open> (0x<hex>; <signed decimal>)\<close> for QWORD and by the comma-separated
  2-digit hex bytes in parentheses otherwise. The lower bound is a date, one below it and
  the upper bound are not.
\<close>

theorem filetime_rendering:
  assumes ty: "type = REG_QWORD \<or> type = REG_BINARY \<or> type = REG_NONE"
    and rd: "rd_bytes d 0 8 = Some bs"
    and v: "v = (of_nat (le_nat bs) :: 64 word)"
  shows "(\<exists>bt. bin_text d type 8 = Some bt \<and>
              (select_branch props type 8 bt d = Some Filetime \<longleftrightarrow>
                 126227808000000000 \<le> sint v \<and> sint v < 157784544000000000)) \<and>
         (126227808000000000 \<le> sint v \<and> sint v < 157784544000000000 \<longrightarrow>
            render lt_fun alls props type 8 d =
              (case print_time lt_fun v False False of None \<Rightarrow> None
               | Some t \<Rightarrow> Some (t @
                   (if type = REG_QWORD
                    then '' (0x'' @ hex_nat (unat v) @ ''; '' @ fmt_d (sint v) @ '')''
                    else '' ('' @ hex_csv bs @ '')'')))) \<and>
         (is_filetime v \<longleftrightarrow> 126227808000000000 \<le> uint v \<and> uint v < 157784544000000000) \<and>
         is_filetime 126227808000000000 \<and>
         \<not> is_filetime (126227808000000000 - 1) \<and>
         \<not> is_filetime 157784544000000000"
proof -
  obtain bt where bt: "bin_text d type 8 = Some bt" using bin_text_8[OF rd] by blast
  have r64: "rd64 d 0 = Some v" using rd v by (simp add: rd64_def)
  have nd: "\<not> (type = REG_DWORD \<and> (8::int) = 4)" by simp
  have sel: "select_branch props type 8 bt d =
      Some (if is_filetime v then Filetime else select_tail type 8 bt)"
    using ty r64 by (simp add: select_branch_def)
  have a: "select_branch props type 8 bt d = Some Filetime \<longleftrightarrow>
      126227808000000000 \<le> sint v \<and> sint v < 157784544000000000"
    using sel select_tail_not_filetime[of type 8 bt] by (auto simp: is_filetime_def)
  have hx: "hex_loop d 0 8 = Some (hex_csv bs)"
    using hex_loop_csv[of 0 d 8 bs] rd by simp
  have b: "render lt_fun alls props type 8 d =
      (case print_time lt_fun v False False of None \<Rightarrow> None
       | Some t \<Rightarrow> Some (t @
           (if type = REG_QWORD
            then '' (0x'' @ hex_nat (unat v) @ ''; '' @ fmt_d (sint v) @ '')''
            else '' ('' @ hex_csv bs @ '')'')))"
    if "126227808000000000 \<le> sint v \<and> sint v < 157784544000000000"
  proof -
    from that have "is_filetime v" by (simp add: is_filetime_def)
    with sel have "select_branch props type 8 bt d = Some Filetime" by simp
    then show ?thesis
      using bt r64 hx
      by (cases "print_time lt_fun v False False") (simp_all add: render_def render_branch_def)
  qed
  have c: "is_filetime 126227808000000000" "\<not> is_filetime (126227808000000000 - 1)"
    "\<not> is_filetime 157784544000000000"
    by (simp_all add: is_filetime_def)
  from bt a b c filetime_uint[of v] show ?thesis by blast
qed

theorem filetime_rendering_witness:
  "rd_bytes y2001 0 8 = Some [0x00, 0xC0, 0x9D, 0xC8, 0x85, 0x73, 0xC0, 0x01] \<and>
   (of_nat (le_nat [0x00, 0xC0, 0x9D, 0xC8, 0x85, 0x73, 0xC0, 0x01]) :: 64 word) = 126227808000000000 \<and>
   render utc False False REG_QWORD 8 y2001 =
     Some ''2001-01-01 00:00:00 (0x1C07385C89DC000; 126227808000000000)'' \<and>
   render utc False False REG_BINARY 8 y2001 =
     Some ''2001-01-01 00:00:00 (00,C0,9D,C8,85,73,C0,01)''"
proof -
  let ?bs = "[0x00, 0xC0, 0x9D, 0xC8, 0x85, 0x73, 0xC0, 0x01] :: byte list"
  have rd: "rd_bytes y2001 0 8 = Some ?bs" by (simp add: rd_eval y2001_def)
  have v: "(126227808000000000 :: 64 word) = of_nat (le_nat ?bs)" by (simp add: le_nat_def)
  have rng: "126227808000000000 \<le> sint (126227808000000000 :: 64 word) \<and>
             sint (126227808000000000 :: 64 word) < 157784544000000000" by simp
  have pt: "print_time utc 126227808000000000 False False = Some ''2001-01-01 00:00:00''"
    by (simp add: print_time_def utc_def tdiv_def fmt_d_def fmt_0d_def pad0_def
        dec_nat_lt10 dec_nat_ge10 hexdigit_def)
  have hx: "hex_nat (unat (126227808000000000 :: 64 word)) = ''1C07385C89DC000''"
    by (simp add: hex_nat_lt16 hex_nat_ge16 hexdigit_def)
  have dc: "fmt_d (sint (126227808000000000 :: 64 word)) = ''126227808000000000''"
    by (simp add: fmt_d_def dec_nat_lt10 dec_nat_ge10 hexdigit_def)
  have csv: "hex_csv ?bs = ''00,C0,9D,C8,85,73,C0,01''"
    by (simp add: hex2_def hexdigit_def)
  have q: "render utc False False REG_QWORD 8 y2001 =
     Some ''2001-01-01 00:00:00 (0x1C07385C89DC000; 126227808000000000)''"
  proof -
    have ty: "REG_QWORD = REG_QWORD \<or> REG_QWORD = REG_BINARY \<or> REG_QWORD = REG_NONE" by simp
    note T = filetime_rendering[of REG_QWORD y2001 ?bs "126227808000000000" False utc False,
        OF ty rd v]
    from T[THEN conjunct2, THEN conjunct1] rng
    have "render utc False False REG_QWORD 8 y2001 =
      (case print_time utc 126227808000000000 False False of None \<Rightarrow> None
       | Some t \<Rightarrow> Some (t @
           (if REG_QWORD = REG_QWORD
            then '' (0x'' @ hex_nat (unat (126227808000000000 :: 64 word)) @ ''; '' @
                 fmt_d (sint (126227808000000000 :: 64 word)) @ '')''
            else '' ('' @ hex_csv ?bs @ '')'')))" by blast
    then show ?thesis unfolding pt hx dc by simp
  qed
  have b: "render utc False False REG_BINARY 8 y2001 =
     Some ''2001-01-01 00:00:00 (00,C0,9D,C8,85,73,C0,01)''"
  proof -
    have ty: "REG_BINARY = REG_QWORD \<or> REG_BINARY = REG_BINARY \<or> REG_BINARY = REG_NONE" by simp
    have ne: "REG_BINARY \<noteq> REG_QWORD" by (simp add: reg_types)
    note T = filetime_rendering[of REG_BINARY y2001 ?bs "126227808000000000" False utc False,
        OF ty rd v]
    from T[THEN conjunct2, THEN conjunct1] rng
    have "render utc False False REG_BINARY 8 y2001 =
      (case print_time utc 126227808000000000 False False of None \<Rightarrow> None
       | Some t \<Rightarrow> Some (t @
           (if REG_BINARY = REG_QWORD
            then '' (0x'' @ hex_nat (unat (126227808000000000 :: 64 word)) @ ''; '' @
                 fmt_d (sint (126227808000000000 :: 64 word)) @ '')''
            else '' ('' @ hex_csv ?bs @ '')'')))" by blast
    then show ?thesis unfolding pt csv using ne by simp
  qed
  from rd v[symmetric] q b show ?thesis by simp
qed

text \<open>
  C3. The effective type is resolved from the raw type code as the specification says:
  under device-property scope with all upper 16 bits set, the lower 16 bits are mapped
  (INT32/UINT32 to DWORD, INT64/UINT64/FILETIME to QWORD, STRING/STRING_INDIRECT to SZ,
  STRING_LIST to MULTI_SZ, any other code unchanged); otherwise under driver-package scope
  the upper 16 bits are masked off; otherwise the raw code is kept. Raw type 0x00010001
  under driver-package scope gives SZ, and device-property scope wins when both are active.
\<close>

theorem resolve_type_spec:
  "resolve_type props drv t = spec_effective_type props drv t \<and>
   resolve_type False True 0x00010001 = REG_SZ \<and>
   resolve_type True True 0xFFFF0006 = REG_DWORD \<and>
   resolve_type True True 0xFFFF0011 = 0xFFFF0011"
proof -
  have a: "resolve_type props drv t = spec_effective_type props drv t"
    by (simp add: resolve_type_def spec_effective_type_def devprop_switch_def Let_def upper16
        lower16 reg_types devprop_types)
  have b: "resolve_type False True 0x00010001 = REG_SZ"
    by (simp add: resolve_type_def reg_types)
  have c: "resolve_type True True 0xFFFF0006 = REG_DWORD"
    by (simp add: resolve_type_def devprop_switch_def reg_types devprop_types)
  have d: "resolve_type True True 0xFFFF0011 = 0xFFFF0011"
    by (simp add: resolve_type_def devprop_switch_def reg_types devprop_types)
  from a b c d show ?thesis by simp
qed

text \<open>
  C4 as stated fails: for the \<open>REG_MULTI_SZ\<close> code units \<open>A, 0, B, 0, 0\<close> outside full-string
  mode the text is \<open>A<>B\<close>, not \<open>A<>B <...>\<close>; and in full-string mode trailing zeros are
  dropped all the same (\<open>A, 0\<close> as \<open>REG_SZ\<close> gives \<open>A\<close>).
\<close>

theorem multi_sz_no_ellipsis:
  "render (\<lambda>_. None) False False REG_MULTI_SZ 10 multi_ab = Some ''A<>B'' \<and>
   render (\<lambda>_. None) False False REG_MULTI_SZ 10 multi_ab \<noteq> Some ''A<>B <...>'' \<and>
   render (\<lambda>_. None) True False REG_SZ 4 sz_a0 = Some ''A''"
proof -
  have a: "render (\<lambda>_. None) False False REG_MULTI_SZ 10 multi_ab = Some ''A<>B''"
    using render_string_type[of REG_MULTI_SZ multi_ab 10 _ "\<lambda>_. None" False False, OF _ multi_ab_units]
    by (simp add: render_units_ab)
  have b: "render (\<lambda>_. None) True False REG_SZ 4 sz_a0 = Some ''A''"
    using render_string_type[of REG_SZ sz_a0 4 _ "\<lambda>_. None" True False, OF _ sz_a0_units]
    by (simp add: render_units_a)
  from a b show ?thesis by simp
qed

text \<open>
  C4, amended. In string rendering the trailing zero code units are dropped before
  rendering unless the binary-looks-like-UTF16-text heuristic fired, in full-string mode
  as well as outside it; for a \<open>REG_MULTI_SZ\<close> value with code units \<open>A, 0, B, 0, 0\<close> the
  text is \<open>A<>B\<close> in both modes.
\<close>

theorem string_trailing_zeros:
  "(( type = REG_SZ \<or> type = REG_MULTI_SZ \<or> type = REG_EXPAND_SZ \<or> type = REG_LINK) \<and>
    rd_units d 0 (nat (tdiv sz 2)) = Some us \<and> 0 \<le> sz \<longrightarrow>
      render lt_fun alls props type sz d = Some (render_units alls 0 type (strip_zeros us))) \<and>
   (rd_units d 0 (nat (tdiv sz 2)) = Some us \<and> 0 \<le> sz \<longrightarrow>
      render_branch lt_fun alls type sz 16 d Str = Some (render_units alls 16 type us)) \<and>
   render_units alls 0 REG_MULTI_SZ (strip_zeros [0x41, 0, 0x42, 0, 0]) = ''A<>B''"
  using render_string_type[of type d sz us lt_fun alls props]
    render_branch_heuristic[of d sz us lt_fun alls type] render_units_ab[of alls]
  by blast

theorem string_trailing_zeros_witness:
  "rd_units multi_ab 0 (nat (tdiv 10 2)) = Some [0x41, 0, 0x42, 0, 0] \<and>
   render (\<lambda>_. None) True False REG_MULTI_SZ 10 multi_ab = Some ''A<>B'' \<and>
   render_branch (\<lambda>_. None) True REG_BINARY 10 16 multi_ab Str = Some ''A<00>B<00><00>''"
proof -
  note T = string_trailing_zeros[of REG_MULTI_SZ multi_ab 10 "[0x41, 0, 0x42, 0, 0]" "\<lambda>_. None"
      True False]
  have ty: "REG_MULTI_SZ = REG_SZ \<or> REG_MULTI_SZ = REG_MULTI_SZ \<or> REG_MULTI_SZ = REG_EXPAND_SZ \<or>
      REG_MULTI_SZ = REG_LINK" by simp
  have nn: "(0::int) \<le> 10" by simp
  have "render (\<lambda>_. None) True False REG_MULTI_SZ 10 multi_ab =
      Some (render_units True 0 REG_MULTI_SZ (strip_zeros [0x41, 0, 0x42, 0, 0]))"
    using T[THEN conjunct1] ty multi_ab_units nn by blast
  then have a: "render (\<lambda>_. None) True False REG_MULTI_SZ 10 multi_ab = Some ''A<>B''"
    by (simp only: render_units_ab)
  note U = string_trailing_zeros[of REG_BINARY multi_ab 10 "[0x41, 0, 0x42, 0, 0]" "\<lambda>_. None"
      True False]
  have "render_branch (\<lambda>_. None) True REG_BINARY 10 16 multi_ab Str =
      Some (render_units True 16 REG_BINARY [0x41, 0, 0x42, 0, 0])"
    using U[THEN conjunct2, THEN conjunct1] multi_ab_units nn by blast
  moreover have "render_units True 16 REG_BINARY [0x41, 0, 0x42, 0, 0] = ''A<00>B<00><00>''"
    by (simp add: char_eval spec_name_unit_def hexdigit_def reg_types)
  ultimately have b: "render_branch (\<lambda>_. None) True REG_BINARY 10 16 multi_ab Str
      = Some ''A<00>B<00><00>''" by simp
  from multi_ab_units a b show ?thesis by simp
qed

text \<open>
  C5 as stated fails: the stride is 1 for an \<open>li\<close> list and 2 for the hashed lists, not
  the reverse. On \<open>li_hive\<close> the walk visits the keys of the first two slots, \<open>A\<close> and \<open>B\<close>;
  with stride 2 the second key would be \<open>C\<close>.
\<close>

theorem li_list_stride:
  "stride 0x69 = 1 \<and> stride 0x66 = 2 \<and> stride 0x68 = 2 \<and>
   map_option stdout (walk (Suc (Suc 0)) (plain_env li_hive) init_state 0 0)
     = Some ''/R/A\<newline>/R/B\<newline>'' \<and>
   map_option stdout (walk (Suc (Suc 0)) (plain_env li_hive) init_state 0 0)
     \<noteq> Some ''/R/A\<newline>/R/C\<newline>''"
proof -
  have w: "map_option stdout (walk (Suc (Suc 0)) (plain_env li_hive) init_state 0 0)
      = Some ''/R/A\<newline>/R/B\<newline>''"
    by (rule li_root_walk)
  have s: "stride 0x69 = 1" "stride 0x66 = 2" "stride 0x68 = 2"
    by (simp_all add: stride_def)
  have n: "Some ''/R/A\<newline>/R/B\<newline>'' \<noteq> Some ''/R/A\<newline>/R/C\<newline>''"
    by simp
  show ?thesis
    unfolding w using s n by blast
qed

text \<open>
  C5, amended. When recursing into the children of a key through a direct leaf list (a
  list whose tag begins with \<open>l\<close>: \<open>lf\<close>, \<open>lh\<close>, \<open>li\<close>), the walker makes the recursive call on
  each entry of the list in order, reading the entries at stride 1 when the second tag
  character is \<open>i\<close> (\<open>li\<close>, bare offsets) and at stride 2 otherwise (\<open>lf\<close>, \<open>lh\<close>, offset and
  hash). A list with another tag is taken as \<open>ri\<close>: when its count is 1, its entry points to
  a list that is traversed as a leaf list in the same way, by its own second tag character.
  Index lists with more than one entry are left out. The key stays empty only if the count
  of the list is 0.
\<close>

theorem subkey_traversal:
  assumes "rd32 m (key + 32) = Some sub" and "sub \<noteq> - 1"
    and "rd16 m (sint sub + 6) = Some cnt"
    and "m (sint sub + 4) = Some t0"
    and "(if t0 = 0x6C then leaf_entries m (sint sub) else ri_entries m (sint sub)) = Some ks"
  shows "children rec m key ek s =
           (case visit rec ks s of None \<Rightarrow> None | Some s' \<Rightarrow> Some (s', ek \<and> cnt = 0))"
  using assms by (rule children_visit)

theorem subkey_traversal_witness:
  "rd32 li_hive (0 + 32) = Some 128 \<and> (128 :: 32 word) \<noteq> - 1 \<and>
   rd16 li_hive (sint (128 :: 32 word) + 6) = Some 2 \<and>
   li_hive (sint (128 :: 32 word) + 4) = Some 0x6C \<and>
   leaf_entries li_hive (sint (128 :: 32 word)) = Some [256, 512] \<and>
   children (\<lambda>s k. Some (s\<lparr>stdout := stdout s @ fmt_d k @ '' ''\<rparr>)) li_hive 0 True init_state
     = Some (init_state\<lparr>stdout := ''256 512 ''\<rparr>, False) \<and>
   rd32 ri_hive (0 + 32) = Some 128 \<and>
   rd16 ri_hive (sint (128 :: 32 word) + 6) = Some 1 \<and>
   ri_hive (sint (128 :: 32 word) + 4) = Some 0x72 \<and>
   ri_entries ri_hive (sint (128 :: 32 word)) = Some [256, 512] \<and>
   children (\<lambda>s k. Some (s\<lparr>stdout := stdout s @ fmt_d k @ '' ''\<rparr>)) ri_hive 0 True init_state
     = Some (init_state\<lparr>stdout := ''256 512 ''\<rparr>, False)"
proof -
  define probe :: "state \<Rightarrow> int \<Rightarrow> state option"
    where "probe = (\<lambda>s k. Some (s\<lparr>stdout := stdout s @ fmt_d k @ '' ''\<rparr>))"
  have ne: "(128 :: 32 word) \<noteq> - 1" by simp
  have le: "leaf_entries li_hive (sint (128 :: 32 word)) = Some [256, 512]"
    using li_leaf_entries by simp
  have re: "ri_entries ri_hive (sint (128 :: 32 word)) = Some [256, 512]"
    using ri_ri_entries by simp
  have d: "fmt_d 256 = ''256''" "fmt_d 512 = ''512''"
    by (simp_all add: fmt_d_def dec_nat_lt10 dec_nat_ge10 hexdigit_def)
  have v: "visit probe [256, 512] init_state = Some (init_state\<lparr>stdout := ''256 512 ''\<rparr>)"
    by (simp add: probe_def d init_state_def)
  have "children probe li_hive 0 True init_state
      = (case visit probe [256, 512] init_state of
           None \<Rightarrow> None | Some s' \<Rightarrow> Some (s', True \<and> (2 :: 16 word) = 0))"
    by (rule subkey_traversal[OF li_sub ne li_cnt li_t0 li_ks])
  then have c1: "children probe li_hive 0 True init_state
      = Some (init_state\<lparr>stdout := ''256 512 ''\<rparr>, False)"
    unfolding v by simp
  have "children probe ri_hive 0 True init_state
      = (case visit probe [256, 512] init_state of
           None \<Rightarrow> None | Some s' \<Rightarrow> Some (s', True \<and> (1 :: 16 word) = 0))"
    by (rule subkey_traversal[OF ri_sub ne ri_cnt ri_t0 ri_ks])
  then have c2: "children probe ri_hive 0 True init_state
      = Some (init_state\<lparr>stdout := ''256 512 ''\<rparr>, False)"
    unfolding v by simp
  from li_sub ne li_cnt li_t0 le c1 ri_sub ri_cnt ri_t0 re c2 show ?thesis
    unfolding probe_def by blast
qed

text \<open>
  C6 as stated fails: the logical length of an inline value is not capped at 4. For the
  value cell \<open>vk_inline8\<close> (size field 0x80000008, type \<open>REG_BINARY\<close>) the line shows
  8 bytes, the last four being the \<open>value_type\<close> field that follows \<open>offset\<close>.
\<close>

theorem inline_length_not_capped: "map_option stdout (value_line (plain_env vk_inline8) init_state 0 100 0)
   = Some ''/@ [3:8] = 78,56,34,12,03,00,00,00\<newline>''"
  by (simp add: value_line_def value_name_def plain_env_def init_state_def slash_put at_puts vk_inline8_name_len vk_inline8_size vk_inline8_type vk_inline8_logical vk_inline8_data cstr_slash_at vk_inline8_view vk_inline8_bintext vk_inline8_branch vk_inline8_hex
      render_def render_branch_def resolve_type_def fmt_d_def dec_nat.simps hexdigit_def
      del: pb_puts.simps)

text \<open>
  C6, amended. For a value whose size field has bit 31 set, the data pointer is the
  address of the \<open>offset\<close> field of the value cell, so the first 4 data bytes are the raw
  bytes of that field, and the logical length is the size with bit 31 cleared, with no cap.
\<close>

theorem inline_data:
  assumes "rd32 m (val + 8) = Some vsize" and "vsize AND 0x80000000 \<noteq> 0"
  shows "materialize bd m val = Some (InHive (val + 12)) \<and>
         rd32 (view m (InHive (val + 12))) 0 = rd32 m (val + 12) \<and>
         logical_size vsize = uint (take_bit 31 vsize)"
  using assms by (simp add: materialize_def view_def rd32_def rd_bytes_def logical_size_take_bit)

theorem inline_data_witness:
  "rd32 vk_inline8 (0 + 8) = Some 0x80000008 \<and> (0x80000008 :: 32 word) AND 0x80000000 \<noteq> 0 \<and>
   materialize False vk_inline8 0 = Some (InHive 12) \<and>
   rd32 (view vk_inline8 (InHive 12)) 0 = Some 0x12345678 \<and>
   logical_size 0x80000008 = 8"
proof -
  have a: "rd32 vk_inline8 (0 + 8) = Some 0x80000008" by (simp add: vk_inline8_size)
  have b: "(0x80000008 :: 32 word) AND 0x80000000 \<noteq> 0" by simp
  have c: "rd32 vk_inline8 (0 + 12) = Some 0x12345678" by (simp add: rd_eval vk_inline8_def)
  have d: "uint (take_bit 31 (0x80000008 :: 32 word)) = 8" by (simp add: logical_size_take_bit[symmetric] vk_inline8_logical)
  show ?thesis using inline_data[OF a b, of False] a b c d by simp
qed

text \<open>
  C7. The two special-subtree flags are single booleans throughout the walk. A call sets
  the flag \<open>properties\<close> exactly when it processes values (not in keys-only mode, where
  the flags are neither read nor written), the flag is not yet active and the key is named
  exactly \<open>Properties\<close> (10 bytes); likewise \<open>driverpackages\<close> for \<open>DriverPackages\<close> (14
  bytes); so a nested key of the same name does not set it again. The children leave both
  flags as they were after the entry, the return clears exactly the flag that this call
  set and no other, and so every call returns with both flags as it found them.
\<close>

theorem special_subtree_flags:
  "(walk fuel e s path key = Some s' \<longrightarrow>
      properties s' = properties s \<and> driverpackages s' = driverpackages s \<and>
      (\<exists>b q t2 tk tl t3. key_values e key q (s\<lparr>pathbuf := b\<rparr>) = Some (t2, tk, tl) \<and>
          properties t3 = properties t2 \<and> driverpackages t3 = driverpackages t2 \<and>
          s' = leave tl t3)) \<and>
   (key_values e key p s = Some (s2, ek, lk) \<longrightarrow>
      (lk = Some Properties \<longleftrightarrow>
         \<not> only_keys e \<and> \<not> properties s \<and> key_named (hive e) key ''Properties'') \<and>
      (lk = Some DriverPackages \<longleftrightarrow>
         \<not> only_keys e \<and> \<not> driverpackages s \<and> key_named (hive e) key ''DriverPackages'') \<and>
      properties s2 = (properties s \<or> lk = Some Properties) \<and>
      driverpackages s2 = (driverpackages s \<or> lk = Some DriverPackages)) \<and>
   properties (leave lk s3) = (properties s3 \<and> lk \<noteq> Some Properties) \<and>
   driverpackages (leave lk s3) = (driverpackages s3 \<and> lk \<noteq> Some DriverPackages)"
proof -
  have a: "\<exists>b q t2 tk tl t3. key_values e key q (s\<lparr>pathbuf := b\<rparr>) = Some (t2, tk, tl) \<and>
          properties t3 = properties t2 \<and> driverpackages t3 = driverpackages t2 \<and>
          s' = leave tl t3" if w: "walk fuel e s path key = Some s'"
  proof (cases fuel)
    case 0
    with w show ?thesis by simp
  next
    case (Suc n)
    with w show ?thesis using walk_shape[of n e s path key s'] by simp
  qed
  show ?thesis
    using walk_keeps[of fuel e s path key s'] key_values_flags_iff[of e key p s s2 ek lk]
      a leave_flags[of lk s3]
    unfolding keeps_def by blast
qed

theorem special_subtree_flags_witness:
  "walk (Suc 0) (plain_env prop_key) init_state 0 0 =
     Some (init_state\<lparr>pathbuf := poke (pathbuf init_state) 0 (map byte_of_char ''/Properties'' @ [0]),
                     stdout := ''/Properties\<newline>''\<rparr>) \<and>
   \<not> properties (init_state\<lparr>pathbuf := poke (pathbuf init_state) 0 (map byte_of_char ''/Properties'' @ [0]),
                     stdout := ''/Properties\<newline>''\<rparr>) \<and>
   key_values (plain_env prop_key) 0 11 init_state =
     Some (init_state\<lparr>properties := True\<rparr>, True, Some Properties) \<and>
   \<not> only_keys (plain_env prop_key) \<and> \<not> properties init_state \<and>
   key_named (hive (plain_env prop_key)) 0 ''Properties'' \<and>
   properties (init_state\<lparr>properties := True\<rparr>) \<and>
   \<not> properties (leave (Some Properties) (init_state\<lparr>properties := True\<rparr>))"
proof -
  note T = special_subtree_flags[of "Suc 0" "plain_env prop_key" init_state 0 0
      "init_state\<lparr>pathbuf := poke (pathbuf init_state) 0 (map byte_of_char ''/Properties'' @ [0]),
                     stdout := ''/Properties\<newline>''\<rparr>"
      11 "init_state\<lparr>properties := True\<rparr>" True "Some Properties" "init_state\<lparr>properties := True\<rparr>"]
  have a: "properties (init_state\<lparr>pathbuf := poke (pathbuf init_state) 0 (map byte_of_char ''/Properties'' @ [0]),
                     stdout := ''/Properties\<newline>''\<rparr>) = properties init_state"
    using T[THEN conjunct1] init_walk by blast
  have b: "(Some Properties = Some Properties) =
      (\<not> only_keys (plain_env prop_key) \<and> \<not> properties init_state \<and>
       key_named (hive (plain_env prop_key)) 0 ''Properties'')"
    using T[THEN conjunct2, THEN conjunct1] prop_key_values by blast
  have c: "properties (leave (Some Properties) (init_state\<lparr>properties := True\<rparr>)) =
      (properties (init_state\<lparr>properties := True\<rparr>) \<and> Some Properties \<noteq> Some Properties)"
    using T[THEN conjunct2, THEN conjunct2, THEN conjunct1] .
  have d: "\<not> properties init_state" by (simp add: init_state_def)
  from a b c d init_walk prop_key_values show ?thesis by simp
qed

text \<open>
  C8. For a key with zero values and zero subkeys whose cell can be read and whose name
  fits the path buffer, outside keys-only mode the walk returns and has written exactly
  the line of the empty key (optional time stamp, optional 20 blanks in hex mode, the full
  path), one line end in all, in default mode, and nothing in values-only mode.
\<close>

theorem empty_key_line:
  assumes nok: "\<not> only_keys e"
    and fl: "rd16 (hive e) (key + 6) = Some fl"
    and ln: "rd16 (hive e) (key + 76) = Some ln"
    and raw: "rd_bytes (hive e) (key + 80) (nat (sint ln)) = Some raw"
    and t: "name_text (hive e) (key + 80) (sint ln) (fl AND 0x20 \<noteq> 0) = Some t"
    and fits: "path + 1 + length t < path_size"
    and vc: "rd32 (hive e) (key + 40) = Some 0"
    and vl: "rd32 (hive e) (key + 44) = Some vlv"
    and ns: "no_subkeys (hive e) key"
    and st: "(if time_sec e \<or> time_full e
              then rd64 (hive e) (key + 8) \<bind> (\<lambda>ts. print_time (localtime e) ts (time_full e) True)
              else Some []) = Some stamp"
    and pre: "\<forall>i<path. pathbuf s i \<noteq> 0 \<and> pathbuf s i \<noteq> 10"
  shows "\<exists>s' line. walk (Suc fuel) e s path key = Some s' \<and> stdout s' = stdout s @ line \<and>
           line = (if only_values e then []
                   else stamp @ (if hex_type e then replicate 20 CHR '' '' else []) @
                        path_text (pathbuf s) path @ CHR ''/'' # t @ ''\<newline>'') \<and>
           newline_count line = (if only_values e then 0 else 1)"
proof -
  have pre0: "\<forall>i<path. pathbuf s i \<noteq> 0" using pre by simp
  note w = walk_leaf_key[OF nok fl ln raw t fits vc vl ns st pre0, of fuel]
  have n1: "CHR ''\<newline>'' \<notin> set stamp"
    using st print_time_no_newline
    by (auto simp: Option.bind_eq_Some_conv split: if_splits)
  have n2: "CHR ''\<newline>'' \<notin> set (path_text (pathbuf s) path)"
    by (rule path_text_no_newline) (use pre in simp)
  have n3: "CHR ''\<newline>'' \<notin> set t"
    using name_text_plain[OF t] by (auto simp: plain_def)
  have n4: "CHR ''\<newline>'' \<notin> set (replicate 20 CHR '' '')" by simp
  have cnt: "newline_count (stamp @ (if hex_type e then replicate 20 CHR '' '' else []) @
                        path_text (pathbuf s) path @ CHR ''/'' # t @ ''\<newline>'') = 1"
    using n1 n2 n3 n4
    by (simp add: newline_count_append newline_count_0)
       (auto simp: newline_count_def filter_empty_conv)
  have c0: "newline_count [] = 0" by (simp add: newline_count_def)
  show ?thesis
    using w cnt c0 by (cases "only_values e") simp_all
qed

theorem empty_key_line_witness:
  "\<exists>s' line. walk (Suc 0) (plain_env prop_key) init_state 0 0 = Some s' \<and>
      stdout s' = stdout init_state @ line \<and> line = ''/Properties\<newline>'' \<and>
      newline_count line = 1"
proof -
  have e: "hive (plain_env prop_key) = prop_key" "\<not> only_keys (plain_env prop_key)"
    "only_values (plain_env prop_key) = False" "hex_type (plain_env prop_key) = False"
    by (simp_all add: plain_env_def)
  have st: "(if time_sec (plain_env prop_key) \<or> time_full (plain_env prop_key)
              then rd64 (hive (plain_env prop_key)) (0 + 8) \<bind>
                (\<lambda>ts. print_time (localtime (plain_env prop_key)) ts (time_full (plain_env prop_key)) True)
              else Some []) = Some []"
    by (simp add: plain_env_def)
  have fits: "0 + 1 + length ''Properties'' < path_size" by (simp add: path_size_def)
  have pre: "\<forall>i<0. pathbuf init_state i \<noteq> 0 \<and> pathbuf init_state i \<noteq> 10" by simp
  have pt: "path_text (pathbuf init_state) 0 = []" by (simp add: path_text_def)
  from empty_key_line[of "plain_env prop_key" 0 "0x20" 10 "map byte_of_char ''Properties''"
        "''Properties''" 0 "- 1" "[]" init_state 0, unfolded e, OF _ prop_key_flags prop_key_len
        prop_key_raw' prop_key_text fits prop_key_vc prop_key_vl prop_key_ns st[unfolded e] pre]
  show ?thesis by (simp add: e pt)
qed



text \<open>
  C10. When a call of \<open>walk\<close> returns, every byte of the path buffer before the position
  passed to the call is what it was at the call.
\<close>

theorem path_prefix_preserved:
  "walk fuel e s path key = Some s' \<Longrightarrow> i < path \<Longrightarrow> pathbuf s' i = pathbuf s i"
  using walk_keeps[of fuel e s path key s'] by (simp add: keeps_def)

theorem path_prefix_preserved_witness:
  "walk (Suc 0) (plain_env prop_key) busy_state 3 0 =
     Some (busy_state\<lparr>pathbuf := poke (pathbuf busy_state) 3 (map byte_of_char ''/Properties'' @ [0]),
                      stdout := ''aaa/Properties\<newline>''\<rparr>) \<and>
   (2 :: nat) < 3 \<and>
   pathbuf (busy_state\<lparr>pathbuf := poke (pathbuf busy_state) 3 (map byte_of_char ''/Properties'' @ [0]),
                      stdout := ''aaa/Properties\<newline>''\<rparr>) 2 = pathbuf busy_state 2"
proof -
  have lt: "(2 :: nat) < 3" by simp
  from path_prefix_preserved[OF busy_walk lt] busy_walk lt show ?thesis by blast
qed

end
